theory Spec2Isabelle
  imports Main "HOL-Library.Code_Target_Numeral"
begin

section \<open>Go strings and the library routines the program calls\<close>

text \<open>
  A Go string is a sequence of bytes; it is modelled as a \<open>string\<close> (a list of 8-bit
  characters), and \<open>len\<close> is \<open>length\<close>. \<open>byteval\<close> reads a byte as a number.
\<close>

definition byteval :: "char \<Rightarrow> nat" where
  "byteval c = of_char c"

text \<open>
  The program calls \<open>strings.ToLower\<close> and formats with \<open>%q\<close>. On ASCII text both are
  simple byte-wise routines and are written out below. On text with a byte above 0x7F
  they consult the Unicode tables of the Go runtime, which are not part of the
  repository: that part is taken as a parameter, the record \<open>GoLib\<close>, and every result
  below holds for any value of it.
\<close>

record GoLib =
  unicodeToLower :: "string \<Rightarrow> string"
  quoteUnicode :: "string \<Rightarrow> string"

definition isASCII :: "string \<Rightarrow> bool" where
  "isASCII s = list_all (\<lambda>c. byteval c < 128) s"

definition lowerByte :: "char \<Rightarrow> char" where
  "lowerByte c = (if 65 \<le> byteval c \<and> byteval c \<le> 90 then char_of (byteval c + 32) else c)"

text \<open>\<open>strings.ToLower\<close>: the ASCII fast path shifts \<open>A..Z\<close> by \<open>'a' - 'A'\<close>.\<close>

definition ToLower :: "GoLib \<Rightarrow> string \<Rightarrow> string" where
  "ToLower lib s = (if isASCII s then map lowerByte s else unicodeToLower lib s)"

definition HasPrefix :: "string \<Rightarrow> string \<Rightarrow> bool" where
  "HasPrefix s prefix = (take (length prefix) s = prefix)"

text \<open>
  \<open>%q\<close> (\<open>strconv.Quote\<close>) on printable ASCII: the text between double quotes, with a
  backslash before each double quote and backslash.
\<close>

definition isPlainASCII :: "string \<Rightarrow> bool" where
  "isPlainASCII s = list_all (\<lambda>c. 32 \<le> byteval c \<and> byteval c \<le> 126) s"

fun quoteBody :: "string \<Rightarrow> string" where
  "quoteBody [] = []"
| "quoteBody (c # cs) =
     (if c = CHR 0x22 \<or> c = CHR 0x5C then CHR 0x5C # c # quoteBody cs else c # quoteBody cs)"

definition quote :: "GoLib \<Rightarrow> string \<Rightarrow> string" where
  "quote lib s = (if isPlainASCII s then [CHR 0x22] @ quoteBody s @ [CHR 0x22] else quoteUnicode lib s)"



text \<open>
  A value of the library parameter for evaluating the model on concrete inputs: it leaves
  text with a byte above 0x7F as it is. On ASCII inputs the parameter is never
  consulted; on other text without upper-case letters Go's \<open>ToLower\<close> also returns the
  text unchanged.
\<close>

definition asciiLib :: GoLib where
  "asciiLib = \<lparr>unicodeToLower = (\<lambda>s. s), quoteUnicode = (\<lambda>s. s)\<rparr>"


section \<open>internal/input: key names and key codes\<close>

text \<open>
  The repository holds two texts of package \<open>input\<close>. The one modelled here is the
  later one, with the table \<open>specialKeyCodes\<close> and the test
  \<open>isSinglePrintableASCII\<close>. (The earlier text, in keypress.go, takes only letters and
  digits as single-character keys, and its table has no entry for space, pageup and
  pagedown.)
\<close>

definition specialKeyCodes :: "(string \<times> string) list" where
  "specialKeyCodes =
     [(''enter'', ''Enter''),
      (''escape'', ''Escape''),
      (''tab'', ''Tab''),
      (''space'', ''Space''),
      (''up'', ''ArrowUp''),
      (''down'', ''ArrowDown''),
      (''left'', ''ArrowLeft''),
      (''right'', ''ArrowRight''),
      (''home'', ''Home''),
      (''end'', ''End''),
      (''pageup'', ''PageUp''),
      (''pagedown'', ''PageDown''),
      (''backspace'', ''Backspace''),
      (''delete'', ''Delete''),
      (''ctrl+c'', ''c''),
      (''ctrl+d'', ''d'')]"

definition isSinglePrintableASCII :: "string \<Rightarrow> bool" where
  "isSinglePrintableASCII key =
     (if length key \<noteq> 1 then False
      else let ch = byteval (key ! 0)
           in 32 \<le> ch \<and> ch \<le> 126)"

datatype KeyError = KeyNotRecognized string

definition KeyToKeyCode :: "GoLib \<Rightarrow> string \<Rightarrow> KeyError + string" where
  "KeyToKeyCode lib key =
     (if isSinglePrintableASCII key then
        (if key = '' '' then Inr ''Space'' else Inr key)
      else let lowerKey = ToLower lib key
           in (case map_of specialKeyCodes lowerKey of
                 Some code \<Rightarrow> Inr code
               | None \<Rightarrow> Inl (KeyNotRecognized key)))"


section \<open>internal/script/parser.go: the key table\<close>

definition validKeys :: "(string \<times> bool) list" where
  "validKeys =
     [(''enter'', True),
      (''tab'', True),
      (''escape'', True),
      (''space'', True),
      (''backspace'', True),
      (''delete'', True),
      (''up'', True),
      (''down'', True),
      (''left'', True),
      (''right'', True),
      (''home'', True),
      (''end'', True),
      (''pageup'', True),
      (''pagedown'', True)]"

text \<open>Reading a Go \<open>map[string]bool\<close> at a missing key gives \<open>false\<close>.\<close>

definition validKeysAt :: "string \<Rightarrow> bool" where
  "validKeysAt k = (case map_of validKeys k of Some b \<Rightarrow> b | None \<Rightarrow> False)"

definition isValidKey :: "GoLib \<Rightarrow> string \<Rightarrow> bool" where
  "isValidKey lib key =
     (let lowerKey = ToLower lib key
      in if validKeysAt lowerKey then True
         else if HasPrefix lowerKey ''ctrl+'' \<and> length lowerKey = 6 then True
         else False)"

text \<open>The key names of the grammar's \<open>KEYNAME\<close> rule.\<close>

definition KEYNAME :: "string list" where
  "KEYNAME = [''Enter'', ''Tab'', ''Escape'', ''Space'', ''Backspace'', ''Delete'', ''Up'',
     ''Down'', ''Left'', ''Right'', ''Home'', ''End'', ''PageUp'', ''PageDown'']"

definition dispatchable :: "GoLib \<Rightarrow> string \<Rightarrow> bool" where
  "dispatchable lib key = (case KeyToKeyCode lib key of Inr code \<Rightarrow> True | Inl e \<Rightarrow> False)"


section \<open>internal/script/action.go\<close>

datatype ActionKind = ActionType | ActionSleep | ActionKey | ActionCtrl

text \<open>
  A \<open>time.Duration\<close> is a signed 64-bit count of nanoseconds; the parser only stores
  values that \<open>time.ParseDuration\<close> has range-checked, so durations are integers here.
  \<open>Repeat\<close> is a Go \<open>int\<close> (64 bits on the platforms the tool runs on).
\<close>

record Action =
  Kind :: ActionKind
  Text :: string
  Key :: string
  Duration :: int
  Speed :: int
  Delay :: int
  Repeat :: int

definition Millisecond :: int where
  "Millisecond = 1000000"

definition Second :: int where
  "Second = 1000000000"

text \<open>The zero value \<open>Action{}\<close>: kind 0 is \<open>ActionType\<close>.\<close>

definition zeroAction :: Action where
  "zeroAction = \<lparr>Kind = ActionType, Text = [], Key = [], Duration = 0, Speed = 0, Delay = 0, Repeat = 0\<rparr>"


section \<open>internal/script/parser.go: the lexer\<close>

datatype tokenKind =
  tokenEOF | tokenIdent | tokenString | tokenNumber | tokenDuration | tokenAt | tokenPlus

record token =
  tkKind :: tokenKind
  tkLiteral :: string
  tkPosition :: nat

record lexer =
  lxInput :: string
  lxPosition :: nat
  lxReadPos :: nat
  lxCh :: char

definition readChar :: "lexer \<Rightarrow> lexer" where
  "readChar l =
     l\<lparr>lxCh := (if lxReadPos l \<ge> length (lxInput l) then CHR 0x00 else lxInput l ! lxReadPos l),
       lxPosition := lxReadPos l,
       lxReadPos := lxReadPos l + 1\<rparr>"

definition newLexer :: "string \<Rightarrow> lexer" where
  "newLexer inp = readChar \<lparr>lxInput = inp, lxPosition = 0, lxReadPos = 0, lxCh = CHR 0x00\<rparr>"

definition peekChar :: "lexer \<Rightarrow> char" where
  "peekChar l = (if lxReadPos l \<ge> length (lxInput l) then CHR 0x00 else lxInput l ! lxReadPos l)"

text \<open>
  \<open>unicode.IsLetter\<close> and \<open>unicode.IsDigit\<close> are applied to \<open>rune(ch)\<close> for a byte
  \<open>ch\<close>, that is to a code point below 256. There the letters are \<open>A..Z\<close>, \<open>a..z\<close>,
  U+00AA, U+00B5, U+00BA, U+00C0..U+00D6, U+00D8..U+00F6 and U+00F8..U+00FF, and the
  digits are \<open>0..9\<close>.
\<close>

definition unicodeIsLetter :: "nat \<Rightarrow> bool" where
  "unicodeIsLetter r =
     ((65 \<le> r \<and> r \<le> 90) \<or> (97 \<le> r \<and> r \<le> 122) \<or> r = 170 \<or> r = 181 \<or> r = 186
      \<or> (192 \<le> r \<and> r \<le> 214) \<or> (216 \<le> r \<and> r \<le> 246) \<or> (248 \<le> r \<and> r \<le> 255))"

definition isLetter :: "char \<Rightarrow> bool" where
  "isLetter ch = (unicodeIsLetter (byteval ch) \<or> ch = CHR ''_'')"

definition isDigit :: "char \<Rightarrow> bool" where
  "isDigit ch = (48 \<le> byteval ch \<and> byteval ch \<le> 57)"

definition isWhitespace :: "char \<Rightarrow> bool" where
  "isWhitespace ch = (ch = CHR '' '' \<or> ch = CHR 0x09 \<or> ch = CHR 0x0A \<or> ch = CHR 0x0D)"

text \<open>
  Every loop of the lexer advances with \<open>readChar\<close> while the current byte is not the
  end marker 0, so the distance to the end of the input bounds it.
\<close>

definition lexMeasure :: "lexer \<Rightarrow> nat" where
  "lexMeasure l = (if lxCh l \<noteq> CHR 0x00 then 1 else 0) + (length (lxInput l) + 1 - lxReadPos l)"

lemma readChar_measure_less:
  "lxCh l \<noteq> CHR 0x00 \<Longrightarrow> lexMeasure (readChar l) < lexMeasure l"
  unfolding lexMeasure_def readChar_def by (cases "length (lxInput l) \<le> lxReadPos l") auto

lemma readChar_measure_le:
  "lexMeasure (readChar l) \<le> lexMeasure l"
  unfolding lexMeasure_def readChar_def by (cases "length (lxInput l) \<le> lxReadPos l") auto

function skipWhitespace :: "lexer \<Rightarrow> lexer" where
  "skipWhitespace l = (if isWhitespace (lxCh l) then skipWhitespace (readChar l) else l)"
  by pat_completeness auto
termination
  by (relation "measure lexMeasure") (auto simp: isWhitespace_def intro!: readChar_measure_less)

declare skipWhitespace.simps [simp del]

definition mkToken :: "tokenKind \<Rightarrow> string \<Rightarrow> nat \<Rightarrow> token" where
  "mkToken k lit p = \<lparr>tkKind = k, tkLiteral = lit, tkPosition = p\<rparr>"

function readStringLoop :: "char \<Rightarrow> lexer \<Rightarrow> string \<Rightarrow> string \<times> lexer" where
  "readStringLoop q l sb =
     (if lxCh l \<noteq> q \<and> lxCh l \<noteq> CHR 0x00 then readStringLoop q (readChar l) (sb @ [lxCh l])
      else (sb, l))"
  by pat_completeness auto
termination
  by (relation "measure (\<lambda>(q, l, sb). lexMeasure l)") (auto intro!: readChar_measure_less)

declare readStringLoop.simps [simp del]

definition readString :: "char \<Rightarrow> lexer \<Rightarrow> token \<times> lexer" where
  "readString q l =
     (let pos = lxPosition l;
          l1 = readChar l;
          (sb, l2) = readStringLoop q l1 [];
          l3 = readChar l2
      in (mkToken tokenString sb pos, l3))"

function readDigitsLoop :: "lexer \<Rightarrow> string \<Rightarrow> string \<times> lexer" where
  "readDigitsLoop l sb =
     (if isDigit (lxCh l) then readDigitsLoop (readChar l) (sb @ [lxCh l]) else (sb, l))"
  by pat_completeness auto
termination
  by (relation "measure (\<lambda>(l, sb). lexMeasure l)")
     (auto simp: isDigit_def byteval_def intro!: readChar_measure_less)

declare readDigitsLoop.simps [simp del]

definition readNumberOrDuration :: "lexer \<Rightarrow> token \<times> lexer" where
  "readNumberOrDuration l =
     (let pos = lxPosition l;
          (numStr, l1) = readDigitsLoop l []
      in if lxCh l1 = CHR ''m'' \<and> peekChar l1 = CHR ''s'' then
           (let sb1 = numStr @ [lxCh l1];
                l2 = readChar l1;
                sb2 = sb1 @ [lxCh l2];
                l3 = readChar l2
            in (mkToken tokenDuration sb2 pos, l3))
         else if lxCh l1 = CHR ''s'' then
           (let sb1 = numStr @ [lxCh l1];
                l2 = readChar l1
            in (mkToken tokenDuration sb1 pos, l2))
         else (mkToken tokenNumber numStr pos, l1))"

function readIdentLoop :: "lexer \<Rightarrow> string \<Rightarrow> string \<times> lexer" where
  "readIdentLoop l sb =
     (if isLetter (lxCh l) \<or> isDigit (lxCh l) \<or> lxCh l = CHR ''+''
      then readIdentLoop (readChar l) (sb @ [lxCh l]) else (sb, l))"
  by pat_completeness auto
termination
  by (relation "measure (\<lambda>(l, sb). lexMeasure l)")
     (auto simp: isDigit_def isLetter_def unicodeIsLetter_def byteval_def intro!: readChar_measure_less)

declare readIdentLoop.simps [simp del]

definition readIdent :: "lexer \<Rightarrow> token \<times> lexer" where
  "readIdent l =
     (let pos = lxPosition l;
          (sb, l1) = readIdentLoop l []
      in (mkToken tokenIdent sb pos, l1))"

lemma skipWhitespace_measure_le:
  "lexMeasure (skipWhitespace l) \<le> lexMeasure l"
proof (induction l rule: skipWhitespace.induct)
  case (1 l)
  show ?case
  proof (cases "isWhitespace (lxCh l)")
    case True
    with 1 have "lexMeasure (skipWhitespace (readChar l)) \<le> lexMeasure (readChar l)" by simp
    also have "\<dots> \<le> lexMeasure l" by (rule readChar_measure_le)
    finally show ?thesis using True by (subst skipWhitespace.simps) simp
  next
    case False
    then show ?thesis by (subst skipWhitespace.simps) simp
  qed
qed

function nextToken :: "lexer \<Rightarrow> token \<times> lexer" where
  "nextToken l0 =
     (let l = skipWhitespace l0;
          pos = lxPosition l
      in if lxCh l = CHR ''@'' then (mkToken tokenAt ''@'' pos, readChar l)
         else if lxCh l = CHR ''+'' then (mkToken tokenPlus ''+'' pos, readChar l)
         else if lxCh l = CHR 0x27 then readString (CHR 0x27) l
         else if lxCh l = CHR 0x22 then readString (CHR 0x22) l
         else if lxCh l = CHR 0x00 then (mkToken tokenEOF [] pos, l)
         else if isDigit (lxCh l) then readNumberOrDuration l
         else if isLetter (lxCh l) then readIdent l
         else nextToken (readChar l))"
  by pat_completeness auto
termination
proof (relation "measure lexMeasure")
  show "wf (measure lexMeasure)" by simp
next
  fix l0 x xa
  assume "x = skipWhitespace l0" and "lxCh x \<noteq> CHR 0x00"
  then have "lexMeasure (readChar x) < lexMeasure x" by (simp add: readChar_measure_less)
  also have "\<dots> \<le> lexMeasure l0" using \<open>x = skipWhitespace l0\<close> by (simp add: skipWhitespace_measure_le)
  finally show "(readChar x, l0) \<in> measure lexMeasure" by simp
qed

declare nextToken.simps [simp del]


section \<open>Library routines of the parser: time.ParseDuration and strconv.Atoi\<close>

text \<open>
  Both routines belong to the Go standard library. \<open>ParseDuration\<close> follows the library
  routine (optional sign, the special case \<open>"0"\<close>, then one or more groups of a decimal
  number and a unit, with its overflow checks and its unsigned 64-bit sum) except for
  fractions: a literal with a decimal point is reported as an error here. The lexer never
  passes one: a literal of a number or duration token is a run of decimal digits, followed
  for a duration by \<open>ms\<close> or \<open>s\<close> (lemma \<open>readNumberOrDuration_literal\<close>). \<open>None\<close>
  stands for the error the routine returns; the parser does not look at its text.
\<close>

definition isDecimal :: "char \<Rightarrow> bool" where
  "isDecimal c = (48 \<le> byteval c \<and> byteval c \<le> 57)"

fun leadingInt :: "string \<Rightarrow> nat \<Rightarrow> (nat \<times> string) option" where
  "leadingInt [] x = Some (x, [])"
| "leadingInt (c # cs) x =
     (if \<not> isDecimal c then Some (x, c # cs)
      else if x > 2 ^ 63 div 10 then None
      else let x' = x * 10 + (byteval c - 48)
           in if x' > 2 ^ 63 then None else leadingInt cs x')"

definition unitMap :: "(string \<times> nat) list" where
  "unitMap =
     [(''ns'', 1),
      (''us'', 1000),
      ([CHR 0xC2, CHR 0xB5, CHR ''s''], 1000),
      ([CHR 0xCE, CHR 0xBC, CHR ''s''], 1000),
      (''ms'', 1000000),
      (''s'', 1000000000),
      (''m'', 60000000000),
      (''h'', 3600000000000)]"

definition unitByte :: "char \<Rightarrow> bool" where
  "unitByte c = (\<not> (c = CHR ''.'' \<or> isDecimal c))"

lemma leadingInt_length:
  "leadingInt s x = Some (v, r) \<Longrightarrow> length r \<le> length s"
  by (induction s x rule: leadingInt.induct) (auto simp: Let_def split: if_splits)

function parseDurationLoop :: "string \<Rightarrow> nat \<Rightarrow> nat option" where
  "parseDurationLoop s d =
     (if s = [] then Some d
      else if \<not> (hd s = CHR ''.'' \<or> isDecimal (hd s)) then None
      else (case leadingInt s 0 of
              None \<Rightarrow> None
            | Some (v, s1) \<Rightarrow>
                if s1 \<noteq> [] \<and> hd s1 = CHR ''.'' then None
                else if length s1 = length s then None
                else let u = takeWhile unitByte s1;
                         s2 = dropWhile unitByte s1
                     in if u = [] then None
                        else (case map_of unitMap u of
                                None \<Rightarrow> None
                              | Some unit \<Rightarrow>
                                  if v > 2 ^ 63 div unit then None
                                  else let d' = (d + v * unit) mod 2 ^ 64
                                       in if d' > 2 ^ 63 then None
                                          else parseDurationLoop s2 d')))"
  by pat_completeness auto
termination
proof (relation "measure (\<lambda>(s, d). length s)")
  show "wf (measure (\<lambda>(s, d). length s))" by simp
next
  fix s :: string and d :: nat and x2 x y xa xb x2a xc
  assume a: "leadingInt s 0 = Some x2" "(x, y) = x2" "length y \<noteq> length s"
    and b: "xb = dropWhile unitByte y"
  from a have "length y \<le> length s" using leadingInt_length [of s 0 x y] by simp
  with a have "length y < length s" by simp
  moreover have "length (dropWhile unitByte y) \<le> length y" by (rule length_dropWhile_le)
  ultimately show "((xb, xc), (s, d)) \<in> measure (\<lambda>(s, d). length s)" using b by simp
qed

declare parseDurationLoop.simps [simp del]

definition ParseDuration :: "string \<Rightarrow> int option" where
  "ParseDuration orig =
     (let (neg, s) = (case orig of
                        [] \<Rightarrow> (False, orig)
                      | c # cs \<Rightarrow> if c = CHR ''-'' \<or> c = CHR ''+'' then (c = CHR ''-'', cs) else (False, orig))
      in if s = ''0'' then Some 0
         else if s = [] then None
         else (case parseDurationLoop s 0 of
                 None \<Rightarrow> None
               | Some d \<Rightarrow>
                   if neg then Some (- int d)
                   else if d > 2 ^ 63 - 1 then None
                   else Some (int d)))"

text \<open>\<open>parseDuration\<close> of parser.go returns \<open>time.ParseDuration(s)\<close>.\<close>

definition parseDuration :: "string \<Rightarrow> int option" where
  "parseDuration s = ParseDuration s"

text \<open>
  \<open>strconv.Atoi\<close> for a 64-bit \<open>int\<close>: an optional sign and a non-empty run of decimal
  digits whose value fits; \<open>None\<close> stands for its syntax and range errors.
\<close>

definition decimalValue :: "string \<Rightarrow> nat" where
  "decimalValue s = foldl (\<lambda>n c. n * 10 + (byteval c - 48)) 0 s"

definition Atoi :: "string \<Rightarrow> int option" where
  "Atoi s0 =
     (let (neg, s) = (case s0 of
                        [] \<Rightarrow> (False, s0)
                      | c # cs \<Rightarrow> if c = CHR ''-'' \<or> c = CHR ''+'' then (c = CHR ''-'', cs) else (False, s0))
      in if s = [] \<or> \<not> list_all isDecimal s then None
         else if neg then (if decimalValue s > 2 ^ 63 then None else Some (- int (decimalValue s)))
         else if decimalValue s > 2 ^ 63 - 1 then None
         else Some (int (decimalValue s)))"


section \<open>internal/script/parser.go: the parser\<close>

record parser =
  pL :: lexer
  curToken :: token
  peekToken :: token

record ParseError =
  Position :: nat
  Message :: string


text \<open>The zero value of a token: kind 0 is \<open>tokenEOF\<close>.\<close>

definition zeroToken :: token where
  "zeroToken = mkToken tokenEOF [] 0"

definition pNextToken :: "parser \<Rightarrow> parser" where
  "pNextToken p =
     (let (t, l') = nextToken (pL p)
      in p\<lparr>curToken := peekToken p, peekToken := t, pL := l'\<rparr>)"

definition newParser :: "lexer \<Rightarrow> parser" where
  "newParser l = pNextToken (pNextToken \<lparr>pL = l, curToken = zeroToken, peekToken = zeroToken\<rparr>)"

definition invalidDurationMessage :: "GoLib \<Rightarrow> string \<Rightarrow> string" where
  "invalidDurationMessage lib lit =
     ''invalid duration '' @ quote lib lit @ ''; use '' @ [CHR 0x27] @ ''500ms'' @ [CHR 0x27]
       @ '' or '' @ [CHR 0x27] @ ''2s'' @ [CHR 0x27]"

definition unknownKeyMessage :: "GoLib \<Rightarrow> string \<Rightarrow> string" where
  "unknownKeyMessage lib keyName =
     ''unknown key '' @ quote lib keyName
       @ ''; valid keys: Enter, Tab, Escape, Space, Backspace, Delete, Up, Down, Left, Right, Home, End, PageUp, PageDown, Ctrl+C, Ctrl+D, Ctrl+L, Ctrl+Z''"

text \<open>
  Each parse function returns the error, or the action together with the advanced parser
  (the Go methods advance the parser in place).
\<close>

definition parseTypeAction :: "GoLib \<Rightarrow> parser \<Rightarrow> ParseError + (Action \<times> parser)" where
  "parseTypeAction lib p0 =
     (let action = zeroAction\<lparr>Kind := ActionType, Speed := 50 * Millisecond\<rparr>;
          p1 = pNextToken p0;
          speedPart =
            (if tkKind (curToken p1) = tokenAt then
               (let p2 = pNextToken p1
                in if tkKind (curToken p2) \<noteq> tokenDuration \<and> tkKind (curToken p2) \<noteq> tokenNumber then
                     Inl \<lparr>Position = tkPosition (curToken p2), Message = ''expected duration after @''\<rparr>
                   else (case parseDuration (tkLiteral (curToken p2)) of
                           None \<Rightarrow>
                             Inl \<lparr>Position = tkPosition (curToken p2),
                                  Message = invalidDurationMessage lib (tkLiteral (curToken p2))\<rparr>
                         | Some duration \<Rightarrow> Inr (action\<lparr>Speed := duration\<rparr>, pNextToken p2)))
             else Inr (action, p1))
      in (case speedPart of
            Inl err \<Rightarrow> Inl err
          | Inr (action1, p3) \<Rightarrow>
              if tkKind (curToken p3) \<noteq> tokenString then
                Inl \<lparr>Position = tkPosition (curToken p3), Message = ''expected quoted string after Type''\<rparr>
              else Inr (action1\<lparr>Text := tkLiteral (curToken p3)\<rparr>, pNextToken p3)))"

definition parseSleepAction :: "GoLib \<Rightarrow> parser \<Rightarrow> ParseError + (Action \<times> parser)" where
  "parseSleepAction lib p0 =
     (let action = zeroAction\<lparr>Kind := ActionSleep\<rparr>;
          p1 = pNextToken p0
      in if tkKind (curToken p1) \<noteq> tokenDuration \<and> tkKind (curToken p1) \<noteq> tokenNumber then
           Inl \<lparr>Position = tkPosition (curToken p1), Message = ''expected duration after Sleep''\<rparr>
         else (case parseDuration (tkLiteral (curToken p1)) of
                 None \<Rightarrow>
                   Inl \<lparr>Position = tkPosition (curToken p1),
                        Message = invalidDurationMessage lib (tkLiteral (curToken p1))\<rparr>
               | Some duration \<Rightarrow> Inr (action\<lparr>Duration := duration\<rparr>, pNextToken p1)))"

definition parseKeyAction :: "GoLib \<Rightarrow> parser \<Rightarrow> ParseError + (Action \<times> parser)" where
  "parseKeyAction lib p0 =
     (let keyName = tkLiteral (curToken p0);
          pos = tkPosition (curToken p0)
      in if \<not> isValidKey lib keyName then
           Inl \<lparr>Position = pos, Message = unknownKeyMessage lib keyName\<rparr>
         else
           (let action = zeroAction\<lparr>Kind := ActionKey, Key := keyName, Repeat := 1\<rparr>;
                p1 = pNextToken p0;
                delayPart =
                  (if tkKind (curToken p1) = tokenAt then
                     (let p2 = pNextToken p1
                      in if tkKind (curToken p2) \<noteq> tokenDuration \<and> tkKind (curToken p2) \<noteq> tokenNumber then
                           Inl \<lparr>Position = tkPosition (curToken p2), Message = ''expected duration after @''\<rparr>
                         else (case parseDuration (tkLiteral (curToken p2)) of
                                 None \<Rightarrow>
                                   Inl \<lparr>Position = tkPosition (curToken p2),
                                        Message = invalidDurationMessage lib (tkLiteral (curToken p2))\<rparr>
                               | Some duration \<Rightarrow> Inr (action\<lparr>Delay := duration\<rparr>, pNextToken p2)))
                   else Inr (action, p1))
            in (case delayPart of
                  Inl err \<Rightarrow> Inl err
                | Inr (action1, p3) \<Rightarrow>
                    if tkKind (curToken p3) = tokenNumber then
                      (case Atoi (tkLiteral (curToken p3)) of
                         None \<Rightarrow>
                           Inl \<lparr>Position = tkPosition (curToken p3),
                                Message = ''invalid repeat count '' @ quote lib (tkLiteral (curToken p3))\<rparr>
                       | Some repeat \<Rightarrow> Inr (action1\<lparr>Repeat := repeat\<rparr>, pNextToken p3))
                    else Inr (action1, p3))))"

text \<open>
  \<open>keyName[5:]\<close> is \<open>drop 5\<close>: the branch is taken when the lower-cased identifier starts
  with \<open>ctrl+\<close>, and then the identifier has at least five bytes (lower-casing keeps the
  length of ASCII text, and no letter outside ASCII lower-cases to one of these five).
\<close>

definition parseCtrlAction :: "GoLib \<Rightarrow> parser \<Rightarrow> ParseError + (Action \<times> parser)" where
  "parseCtrlAction lib p0 =
     (let keyName = tkLiteral (curToken p0);
          action = zeroAction\<lparr>Kind := ActionCtrl, Key := ToLower lib (drop 5 keyName)\<rparr>;
          p1 = pNextToken p0
      in Inr (action, p1))"

definition parseAction :: "GoLib \<Rightarrow> parser \<Rightarrow> ParseError + (Action \<times> parser)" where
  "parseAction lib p =
     (if tkKind (curToken p) \<noteq> tokenIdent then
        Inl \<lparr>Position = tkPosition (curToken p),
             Message = ''expected command or key, got '' @ tkLiteral (curToken p)\<rparr>
      else
        (let ident = ToLower lib (tkLiteral (curToken p))
         in if HasPrefix ident ''ctrl+'' then parseCtrlAction lib p
            else if ident = ''type'' then parseTypeAction lib p
            else if ident = ''sleep'' then parseSleepAction lib p
            else parseKeyAction lib p))"


text \<open>
  The loop of \<open>Parse\<close> ends because every successful \<open>parseAction\<close> consumes a token
  other than the end-of-input token, and the lexer moves forward for each such token.
\<close>
lemma isDigit_not_nul: "isDigit c \<Longrightarrow> c \<noteq> CHR 0x00"
  by (auto simp: isDigit_def byteval_def)

lemma isLetter_not_nul: "isLetter c \<Longrightarrow> c \<noteq> CHR 0x00"
  by (auto simp: isLetter_def unicodeIsLetter_def byteval_def)

lemma readStringLoop_measure_le:
  "lexMeasure (snd (readStringLoop q l sb)) \<le> lexMeasure l"
proof (induction q l sb rule: readStringLoop.induct)
  case (1 q l sb)
  show ?case
  proof (cases "lxCh l \<noteq> q \<and> lxCh l \<noteq> CHR 0x00")
    case True
    with 1 have "lexMeasure (snd (readStringLoop q (readChar l) (sb @ [lxCh l]))) \<le> lexMeasure (readChar l)"
      by simp
    also have "\<dots> \<le> lexMeasure l" by (rule readChar_measure_le)
    finally show ?thesis using True by (subst readStringLoop.simps) simp
  next
    case False
    then show ?thesis by (subst readStringLoop.simps) auto
  qed
qed

lemma readDigitsLoop_measure_le:
  "lexMeasure (snd (readDigitsLoop l sb)) \<le> lexMeasure l"
proof (induction l sb rule: readDigitsLoop.induct)
  case (1 l sb)
  show ?case
  proof (cases "isDigit (lxCh l)")
    case True
    with 1 have "lexMeasure (snd (readDigitsLoop (readChar l) (sb @ [lxCh l]))) \<le> lexMeasure (readChar l)"
      by simp
    also have "\<dots> \<le> lexMeasure l" by (rule readChar_measure_le)
    finally show ?thesis using True by (subst readDigitsLoop.simps) simp
  next
    case False
    then show ?thesis by (subst readDigitsLoop.simps) simp
  qed
qed

lemma readDigitsLoop_measure_less:
  assumes "isDigit (lxCh l)"
  shows "lexMeasure (snd (readDigitsLoop l sb)) < lexMeasure l"
proof -
  have "lexMeasure (snd (readDigitsLoop l sb)) = lexMeasure (snd (readDigitsLoop (readChar l) (sb @ [lxCh l])))"
    using assms by (subst readDigitsLoop.simps) simp
  also have "\<dots> \<le> lexMeasure (readChar l)" by (rule readDigitsLoop_measure_le)
  also have "\<dots> < lexMeasure l" using assms by (intro readChar_measure_less isDigit_not_nul)
  finally show ?thesis .
qed

lemma readIdentLoop_measure_le:
  "lexMeasure (snd (readIdentLoop l sb)) \<le> lexMeasure l"
proof (induction l sb rule: readIdentLoop.induct)
  case (1 l sb)
  show ?case
  proof (cases "isLetter (lxCh l) \<or> isDigit (lxCh l) \<or> lxCh l = CHR ''+''")
    case True
    with 1 have "lexMeasure (snd (readIdentLoop (readChar l) (sb @ [lxCh l]))) \<le> lexMeasure (readChar l)"
      by simp
    also have "\<dots> \<le> lexMeasure l" by (rule readChar_measure_le)
    finally show ?thesis using True by (subst readIdentLoop.simps) simp
  next
    case False
    then show ?thesis by (subst readIdentLoop.simps) simp
  qed
qed

lemma readIdentLoop_measure_less:
  assumes "isLetter (lxCh l)"
  shows "lexMeasure (snd (readIdentLoop l sb)) < lexMeasure l"
proof -
  have "lexMeasure (snd (readIdentLoop l sb)) = lexMeasure (snd (readIdentLoop (readChar l) (sb @ [lxCh l])))"
    using assms by (subst readIdentLoop.simps) simp
  also have "\<dots> \<le> lexMeasure (readChar l)" by (rule readIdentLoop_measure_le)
  also have "\<dots> < lexMeasure l" using assms by (intro readChar_measure_less isLetter_not_nul)
  finally show ?thesis .
qed

lemma readString_measure_less:
  assumes "lxCh l \<noteq> CHR 0x00"
  shows "lexMeasure (snd (readString q l)) < lexMeasure l"
proof -
  obtain sb l2 where r: "readStringLoop q (readChar l) [] = (sb, l2)" by (cases "readStringLoop q (readChar l) []")
  have "lexMeasure l2 \<le> lexMeasure (readChar l)"
    using readStringLoop_measure_le [of q "readChar l" "[]"] r by simp
  moreover have "lexMeasure (readChar l2) \<le> lexMeasure l2" by (rule readChar_measure_le)
  moreover have "lexMeasure (readChar l) < lexMeasure l" using assms by (rule readChar_measure_less)
  ultimately show ?thesis by (simp add: readString_def r)
qed

lemma readNumberOrDuration_measure_less:
  assumes "isDigit (lxCh l)"
  shows "lexMeasure (snd (readNumberOrDuration l)) < lexMeasure l"
proof -
  obtain numStr l1 where r: "readDigitsLoop l [] = (numStr, l1)" by (cases "readDigitsLoop l []")
  have a: "lexMeasure l1 < lexMeasure l"
    using readDigitsLoop_measure_less [OF assms, of "[]"] r by simp
  have b: "lexMeasure (readChar l1) \<le> lexMeasure l1" by (rule readChar_measure_le)
  have c: "lexMeasure (readChar (readChar l1)) \<le> lexMeasure (readChar l1)" by (rule readChar_measure_le)
  show ?thesis using a b c by (simp add: readNumberOrDuration_def r Let_def)
qed

lemma readIdent_measure_less:
  assumes "isLetter (lxCh l)"
  shows "lexMeasure (snd (readIdent l)) < lexMeasure l"
proof -
  obtain sb l1 where r: "readIdentLoop l [] = (sb, l1)" by (cases "readIdentLoop l []")
  show ?thesis using readIdentLoop_measure_less [OF assms, of "[]"] r by (simp add: readIdent_def)
qed

lemma readString_kind: "tkKind (fst (readString q l)) = tokenString"
  by (simp add: readString_def mkToken_def split: prod.splits)

lemma nextToken_measure:
  "lexMeasure (snd (nextToken l0)) \<le> lexMeasure l0 \<and>
   (tkKind (fst (nextToken l0)) \<noteq> tokenEOF \<longrightarrow> lexMeasure (snd (nextToken l0)) < lexMeasure l0)"
proof (induction l0 rule: nextToken.induct)
  case (1 l0)
  define l where "l = skipWhitespace l0"
  have le0: "lexMeasure l \<le> lexMeasure l0" unfolding l_def by (rule skipWhitespace_measure_le)
  consider (at) "lxCh l = CHR ''@''"
    | (plus) "lxCh l = CHR ''+''"
    | (sq) "lxCh l = CHR 0x27"
    | (dq) "lxCh l = CHR 0x22"
    | (eof) "lxCh l = CHR 0x00"
    | (digit) "lxCh l \<noteq> CHR ''@''" "lxCh l \<noteq> CHR ''+''" "lxCh l \<noteq> CHR 0x27" "lxCh l \<noteq> CHR 0x22"
        "lxCh l \<noteq> CHR 0x00" "isDigit (lxCh l)"
    | (letter) "lxCh l \<noteq> CHR ''@''" "lxCh l \<noteq> CHR ''+''" "lxCh l \<noteq> CHR 0x27" "lxCh l \<noteq> CHR 0x22"
        "lxCh l \<noteq> CHR 0x00" "\<not> isDigit (lxCh l)" "isLetter (lxCh l)"
    | (other) "lxCh l \<noteq> CHR ''@''" "lxCh l \<noteq> CHR ''+''" "lxCh l \<noteq> CHR 0x27" "lxCh l \<noteq> CHR 0x22"
        "lxCh l \<noteq> CHR 0x00" "\<not> isDigit (lxCh l)" "\<not> isLetter (lxCh l)"
    by blast
  then show ?case
  proof cases
    case at
    then have eq: "nextToken l0 = (mkToken tokenAt ''@'' (lxPosition l), readChar l)"
      by (subst nextToken.simps) (simp add: l_def Let_def)
    have "lexMeasure (readChar l) < lexMeasure l" using at by (intro readChar_measure_less) simp
    then show ?thesis using le0 by (simp add: eq)
  next
    case plus
    then have eq: "nextToken l0 = (mkToken tokenPlus ''+'' (lxPosition l), readChar l)"
      by (subst nextToken.simps) (simp add: l_def Let_def)
    have "lexMeasure (readChar l) < lexMeasure l" using plus by (intro readChar_measure_less) simp
    then show ?thesis using le0 by (simp add: eq)
  next
    case sq
    then have eq: "nextToken l0 = readString (CHR 0x27) l"
      by (subst nextToken.simps) (simp add: l_def Let_def)
    have "lexMeasure (snd (readString (CHR 0x27) l)) < lexMeasure l"
      using sq by (intro readString_measure_less) simp
    then show ?thesis using le0 by (simp add: eq)
  next
    case dq
    then have eq: "nextToken l0 = readString (CHR 0x22) l"
      by (subst nextToken.simps) (simp add: l_def Let_def)
    have "lexMeasure (snd (readString (CHR 0x22) l)) < lexMeasure l"
      using dq by (intro readString_measure_less) simp
    then show ?thesis using le0 by (simp add: eq)
  next
    case eof
    then have eq: "nextToken l0 = (mkToken tokenEOF [] (lxPosition l), l)"
      by (subst nextToken.simps) (simp add: l_def Let_def)
    show ?thesis using le0 by (simp add: eq mkToken_def)
  next
    case digit
    then have eq: "nextToken l0 = readNumberOrDuration l"
      by (subst nextToken.simps) (simp add: l_def Let_def)
    show ?thesis using le0 readNumberOrDuration_measure_less [OF digit(6)] by (simp add: eq)
  next
    case letter
    then have eq: "nextToken l0 = readIdent l"
      by (subst nextToken.simps) (simp add: l_def Let_def)
    show ?thesis using le0 readIdent_measure_less [OF letter(7)] by (simp add: eq)
  next
    case other
    then have eq: "nextToken l0 = nextToken (readChar l)"
      by (subst nextToken.simps) (simp add: l_def Let_def)
    have IH: "lexMeasure (snd (nextToken (readChar l))) \<le> lexMeasure (readChar l)"
      using "1.IH" [OF l_def refl] other by simp
    have "lexMeasure (readChar l) < lexMeasure l" using other by (intro readChar_measure_less) simp
    then show ?thesis using le0 IH by (simp add: eq)
  qed
qed

definition parserMeasure :: "parser \<Rightarrow> nat" where
  "parserMeasure p =
     2 * lexMeasure (pL p) + (if tkKind (curToken p) \<noteq> tokenEOF then 1 else 0)
       + (if tkKind (peekToken p) \<noteq> tokenEOF then 1 else 0)"

lemma pNextToken_measure_le: "parserMeasure (pNextToken p) \<le> parserMeasure p"
proof -
  obtain t l' where r: "nextToken (pL p) = (t, l')" by (cases "nextToken (pL p)")
  show ?thesis using nextToken_measure [of "pL p"] by (auto simp: parserMeasure_def pNextToken_def r)
qed

lemma pNextToken_measure_less:
  "tkKind (curToken p) \<noteq> tokenEOF \<Longrightarrow> parserMeasure (pNextToken p) < parserMeasure p"
proof -
  assume a: "tkKind (curToken p) \<noteq> tokenEOF"
  obtain t l' where r: "nextToken (pL p) = (t, l')" by (cases "nextToken (pL p)")
  show ?thesis using a nextToken_measure [of "pL p"] by (auto simp: parserMeasure_def pNextToken_def r)
qed

lemma parseAction_measure:
  assumes "parseAction lib p = Inr (a, p')"
  shows "parserMeasure p' < parserMeasure p"
proof -
  have k: "tkKind (curToken p) \<noteq> tokenEOF" using assms by (auto simp: parseAction_def split: if_splits)
  have 1: "parserMeasure (pNextToken p) < parserMeasure p" using k by (rule pNextToken_measure_less)
  have 2: "parserMeasure (pNextToken (pNextToken p)) \<le> parserMeasure (pNextToken p)" by (rule pNextToken_measure_le)
  have 3: "parserMeasure (pNextToken (pNextToken (pNextToken p))) \<le> parserMeasure (pNextToken (pNextToken p))"
    by (rule pNextToken_measure_le)
  have 4: "parserMeasure (pNextToken (pNextToken (pNextToken (pNextToken p))))
      \<le> parserMeasure (pNextToken (pNextToken (pNextToken p)))"
    by (rule pNextToken_measure_le)
  have "p' = pNextToken p \<or> p' = pNextToken (pNextToken p) \<or> p' = pNextToken (pNextToken (pNextToken p))
      \<or> p' = pNextToken (pNextToken (pNextToken (pNextToken p)))"
    using assms
    by (auto simp: parseAction_def parseCtrlAction_def parseTypeAction_def parseSleepAction_def
        parseKeyAction_def Let_def split: if_splits option.splits sum.splits)
  then show ?thesis using 1 2 3 4 by auto
qed

function ParseLoop :: "GoLib \<Rightarrow> parser \<Rightarrow> Action list \<Rightarrow> Action list option \<times> ParseError option" where
  "ParseLoop lib p actions =
     (if tkKind (curToken p) \<noteq> tokenEOF then
        (case parseAction lib p of
           Inl err \<Rightarrow> (None, Some err)
         | Inr (action, p') \<Rightarrow> ParseLoop lib p' (actions @ [action]))
      else (Some actions, None))"
  by pat_completeness auto
termination
  by (relation "measure (\<lambda>(lib, p, actions). parserMeasure p)") (auto simp: parseAction_measure)

declare ParseLoop.simps [simp del]

definition Parse :: "GoLib \<Rightarrow> string \<Rightarrow> Action list option \<times> ParseError option" where
  "Parse lib script =
     (let l = newLexer script;
          p = newParser l
      in ParseLoop lib p [])"


section \<open>The capture engine: executing the actions\<close>

text \<open>
  The functions below are those of the text of package \<open>capture\<close> that executes
  actions (\<open>executeActions\<close> and the functions it calls; the repository also holds an
  earlier text of the package, without actions, whose \<open>isCtrlKey\<close> knows only Ctrl+C
  and Ctrl+D).

  The engine talks to three things outside the program: the clock, the cancellable
  context and the browser. They are modelled as follows.
  \<^item> Time is a count of nanoseconds, \<open>now\<close>; it advances only in the engine's waits.
  \<^item> The context is done from the instant \<open>ctxDoneAt\<close> on (\<open>None\<close>: never). A
    non-blocking check sees it done when that instant is not after \<open>now\<close>.
  \<^item> A wait is a \<open>select\<close> on the context and on a timer of duration \<open>d\<close>, which
    fires at \<open>now + d\<close> (at once when \<open>d\<close> is zero or less). When the context is not
    yet done as the wait begins, the \<open>select\<close> blocks and takes the channel that is
    ready first. When both channels are ready as the \<open>select\<close> is evaluated, Go takes
    one of them at random; this is so when the context's instant is the timer's, and it
    can be so when the context is already done as the wait begins (the timer has fired
    too if its duration is zero or less, or so short that it has run out by the time
    the \<open>select\<close> is evaluated). In both cases the model asks the environment,
    \<open>selectPicksTimer\<close>, whether the timer has fired and is the one taken.
  \<^item> Each \<open>chromedp.Run\<close> of a key event is recorded in \<open>calls\<close>, in order, whether
    it succeeds or not; \<open>rendererFails\<close> tells from the calls made so far whether the
    next one returns an error.
  \<open>intervalRunning\<close> tells whether the periodic screenshot task is running; the engine
  stops it (closes \<open>intervalStopChan\<close> and waits for the task) when a dispatch fails.
  The diagnostic output under \<open>Verbose\<close> is left out.
\<close>

datatype RendererCall = KeyEvent string | CtrlKeyEvent string

datatype EngineError =
    ContextErr
  | LookupKeyCodeErr string KeyError
  | InvalidCtrlKeyFormat string
  | RendererErr RendererCall
  | SendCharacterErr string EngineError
  | SendKeyErr string int EngineError
  | SendCtrlErr string EngineError
  | SendKeypressErr nat string EngineError

record Config =
  Actions :: "Action list"
  Keypresses :: "string list"
  Delays :: "int list"

record World =
  now :: int
  calls :: "RendererCall list"
  intervalRunning :: bool

record Env =
  goLib :: GoLib
  config :: Config
  ctxDoneAt :: "int option"
  selectPicksTimer :: "World \<Rightarrow> int \<Rightarrow> bool"
  rendererFails :: "RendererCall list \<Rightarrow> RendererCall \<Rightarrow> bool"

definition ctxDone :: "Env \<Rightarrow> World \<Rightarrow> bool" where
  "ctxDone env w = (case ctxDoneAt env of None \<Rightarrow> False | Some c \<Rightarrow> c \<le> now w)"

text \<open>\<open>select { case <-ctx.Done(): return ctx.Err(); case <-time.After(d): }\<close>\<close>

definition waitFor :: "Env \<Rightarrow> int \<Rightarrow> World \<Rightarrow> EngineError option \<times> World" where
  "waitFor env d w =
     (let timerAt = now w + max d 0
      in (case ctxDoneAt env of
            None \<Rightarrow> (None, w\<lparr>now := timerAt\<rparr>)
          | Some c \<Rightarrow>
              if c \<le> now w then
                (if selectPicksTimer env w d then (None, w\<lparr>now := timerAt\<rparr>)
                 else (Some ContextErr, w))
              else if c < timerAt \<or> (c = timerAt \<and> \<not> selectPicksTimer env w d)
                   then (Some ContextErr, w\<lparr>now := c\<rparr>)
                   else (None, w\<lparr>now := timerAt\<rparr>)))"

text \<open>\<open>if intervalStopChan != nil { close(intervalStopChan); wg.Wait() }\<close>\<close>

definition stopInterval :: "World \<Rightarrow> World" where
  "stopInterval w = w\<lparr>intervalRunning := False\<rparr>"

text \<open>\<open>chromedp.Run(ctx, chromedp.KeyEvent(...))\<close>\<close>

definition rendererRun :: "Env \<Rightarrow> RendererCall \<Rightarrow> World \<Rightarrow> EngineError option \<times> World" where
  "rendererRun env c w =
     (if rendererFails env (calls w) c then Some (RendererErr c) else None, w\<lparr>calls := calls w @ [c]\<rparr>)"

definition isCtrlKey :: "Env \<Rightarrow> string \<Rightarrow> bool" where
  "isCtrlKey env key =
     (let lowerKey = ToLower (goLib env) key
      in HasPrefix lowerKey ''ctrl+'' \<and> length lowerKey = 6)"

definition sendCtrlKeypress :: "Env \<Rightarrow> string \<Rightarrow> World \<Rightarrow> EngineError option \<times> World" where
  "sendCtrlKeypress env key w =
     (let lowerKey = ToLower (goLib env) key
      in if \<not> HasPrefix lowerKey ''ctrl+'' \<or> length lowerKey \<noteq> 6 then (Some (InvalidCtrlKeyFormat key), w)
         else let keyChar = drop 5 lowerKey
              in rendererRun env (CtrlKeyEvent keyChar) w)"

definition sendKeypress :: "Env \<Rightarrow> string \<Rightarrow> World \<Rightarrow> EngineError option \<times> World" where
  "sendKeypress env key w =
     (if isCtrlKey env key then sendCtrlKeypress env key w
      else (case KeyToKeyCode (goLib env) key of
              Inl err \<Rightarrow> (Some (LookupKeyCodeErr key err), w)
            | Inr keyCode \<Rightarrow> rendererRun env (KeyEvent keyCode) w))"

text \<open>
  \<open>for _, char := range action.Text\<close> walks the text rune by rune, and \<open>string(char)\<close>
  is the UTF-8 encoding of the rune: the bytes read for a valid encoding, and the
  encoding of U+FFFD for a byte that starts none.
\<close>

definition isCont :: "char \<Rightarrow> bool" where
  "isCont c = (128 \<le> byteval c \<and> byteval c \<le> 191)"

definition runeLen :: "string \<Rightarrow> nat" where
  "runeLen s =
     (case s of
        [] \<Rightarrow> 0
      | b0 # r \<Rightarrow>
          let n = byteval b0
          in if n < 128 then 1
             else if 194 \<le> n \<and> n \<le> 223 then
               (case r of b1 # _ \<Rightarrow> if isCont b1 then 2 else 0 | _ \<Rightarrow> 0)
             else if 224 \<le> n \<and> n \<le> 239 then
               (case r of
                  b1 # b2 # _ \<Rightarrow>
                    if (if n = 224 then 160 \<le> byteval b1 \<and> byteval b1 \<le> 191
                        else if n = 237 then 128 \<le> byteval b1 \<and> byteval b1 \<le> 159
                        else isCont b1) \<and> isCont b2
                    then 3 else 0
                | _ \<Rightarrow> 0)
             else if 240 \<le> n \<and> n \<le> 244 then
               (case r of
                  b1 # b2 # b3 # _ \<Rightarrow>
                    if (if n = 240 then 144 \<le> byteval b1 \<and> byteval b1 \<le> 191
                        else if n = 244 then 128 \<le> byteval b1 \<and> byteval b1 \<le> 143
                        else isCont b1) \<and> isCont b2 \<and> isCont b3
                    then 4 else 0
                | _ \<Rightarrow> 0)
             else 0)"

definition runeError :: string where
  "runeError = [CHR 0xEF, CHR 0xBF, CHR 0xBD]"

function stringRunes :: "string \<Rightarrow> string list" where
  "stringRunes s =
     (if s = [] then []
      else if runeLen s = 0 then runeError # stringRunes (tl s)
      else take (runeLen s) s # stringRunes (drop (runeLen s) s))"
  by pat_completeness auto
termination
  by (relation "measure length") (auto simp: neq_Nil_conv)

declare stringRunes.simps [simp del]

fun executeTypeLoop :: "Env \<Rightarrow> Action \<Rightarrow> string list \<Rightarrow> World \<Rightarrow> EngineError option \<times> World" where
  "executeTypeLoop env action [] w = (None, w)"
| "executeTypeLoop env action (char # rest) w =
     (if ctxDone env w then (Some ContextErr, w)
      else (case sendKeypress env char w of
              (Some err, w1) \<Rightarrow> (Some (SendCharacterErr char err), stopInterval w1)
            | (None, w1) \<Rightarrow>
                if Speed action > 0 then
                  (case waitFor env (Speed action) w1 of
                     (Some err, w2) \<Rightarrow> (Some err, w2)
                   | (None, w2) \<Rightarrow> executeTypeLoop env action rest w2)
                else executeTypeLoop env action rest w1))"

definition executeTypeAction :: "Env \<Rightarrow> Action \<Rightarrow> nat \<Rightarrow> World \<Rightarrow> EngineError option \<times> World" where
  "executeTypeAction env action index w =
     (case executeTypeLoop env action (stringRunes (Text action)) w of
        (Some err, w1) \<Rightarrow> (Some err, w1)
      | (None, w1) \<Rightarrow>
          if Delay action > 0 then waitFor env (Delay action) w1
          else (None, w1))"

definition executeSleepAction :: "Env \<Rightarrow> Action \<Rightarrow> nat \<Rightarrow> World \<Rightarrow> EngineError option \<times> World" where
  "executeSleepAction env action index w = waitFor env (Duration action) w"

function executeKeyLoop :: "Env \<Rightarrow> Action \<Rightarrow> int \<Rightarrow> int \<Rightarrow> World \<Rightarrow> EngineError option \<times> World" where
  "executeKeyLoop env action i repeat w =
     (if i < repeat then
        (if ctxDone env w then (Some ContextErr, w)
         else (case sendKeypress env (Key action) w of
                 (Some err, w1) \<Rightarrow> (Some (SendKeyErr (Key action) (i + 1) err), stopInterval w1)
               | (None, w1) \<Rightarrow> executeKeyLoop env action (i + 1) repeat w1))
      else (None, w))"
  by pat_completeness auto
termination
  by (relation "measure (\<lambda>(env, action, i, repeat, w). nat (repeat - i))") auto

declare executeKeyLoop.simps [simp del]

definition executeKeyAction :: "Env \<Rightarrow> Action \<Rightarrow> nat \<Rightarrow> World \<Rightarrow> EngineError option \<times> World" where
  "executeKeyAction env action index w =
     (let repeat = (if Repeat action \<le> 0 then 1 else Repeat action)
      in (case executeKeyLoop env action 0 repeat w of
            (Some err, w1) \<Rightarrow> (Some err, w1)
          | (None, w1) \<Rightarrow>
              if Delay action > 0 then waitFor env (Delay action) w1
              else (None, w1)))"

definition executeCtrlAction :: "Env \<Rightarrow> Action \<Rightarrow> nat \<Rightarrow> World \<Rightarrow> EngineError option \<times> World" where
  "executeCtrlAction env action index w =
     (case sendCtrlKeypress env (''ctrl+'' @ Key action) w of
        (Some err, w1) \<Rightarrow> (Some (SendCtrlErr (Key action) err), stopInterval w1)
      | (None, w1) \<Rightarrow> (None, w1))"

text \<open>
  \<open>ActionKind\<close> has the four declared kinds, so the \<open>default\<close> branch of the switch
  (\<open>unknown action kind\<close>, for an integer that is none of them) has no counterpart.
\<close>

definition executeSingleAction :: "Env \<Rightarrow> Action \<Rightarrow> nat \<Rightarrow> World \<Rightarrow> EngineError option \<times> World" where
  "executeSingleAction env action index w =
     (case Kind action of
        ActionType \<Rightarrow> executeTypeAction env action index w
      | ActionSleep \<Rightarrow> executeSleepAction env action index w
      | ActionKey \<Rightarrow> executeKeyAction env action index w
      | ActionCtrl \<Rightarrow> executeCtrlAction env action index w)"

fun executeActionsLoop :: "Env \<Rightarrow> nat \<Rightarrow> Action list \<Rightarrow> World \<Rightarrow> EngineError option \<times> World" where
  "executeActionsLoop env i [] w = (None, w)"
| "executeActionsLoop env i (action # rest) w =
     (case executeSingleAction env action i w of
        (Some err, w1) \<Rightarrow> (Some err, w1)
      | (None, w1) \<Rightarrow> executeActionsLoop env (i + 1) rest w1)"

fun executeKeypressesLoop :: "Env \<Rightarrow> nat \<Rightarrow> string list \<Rightarrow> World \<Rightarrow> EngineError option \<times> World" where
  "executeKeypressesLoop env i [] w = (None, w)"
| "executeKeypressesLoop env i (key # rest) w =
     (case (if i > 0 \<and> i - 1 < length (Delays (config env))
            then waitFor env (Delays (config env) ! (i - 1)) w
            else (None, w)) of
        (Some err, w1) \<Rightarrow> (Some err, w1)
      | (None, w1) \<Rightarrow>
          (case sendKeypress env key w1 of
             (Some err, w2) \<Rightarrow> (Some (SendKeypressErr i key err), stopInterval w2)
           | (None, w2) \<Rightarrow> executeKeypressesLoop env (i + 1) rest w2))"

definition executeKeypresses :: "Env \<Rightarrow> World \<Rightarrow> EngineError option \<times> World" where
  "executeKeypresses env w = executeKeypressesLoop env 0 (Keypresses (config env)) w"

definition executeActions :: "Env \<Rightarrow> World \<Rightarrow> EngineError option \<times> World" where
  "executeActions env w =
     (let actions = Actions (config env);
          useActions = (length actions > 0)
      in if \<not> useActions then executeKeypresses env w
         else executeActionsLoop env 0 actions w)"

text \<open>
  An environment for concrete runs: the given actions and cancellation instant, a browser
  that accepts every key event, and a \<open>select\<close> that, with both channels ready, takes
  the timer when its duration is zero or less; a timer of positive duration has not
  fired when the \<open>select\<close> that starts it is evaluated.
\<close>

definition plainEnv :: "Action list \<Rightarrow> int option \<Rightarrow> Env" where
  "plainEnv actions doneAt =
     \<lparr>goLib = asciiLib,
      config = \<lparr>Actions = actions, Keypresses = [], Delays = []\<rparr>,
      ctxDoneAt = doneAt,
      selectPicksTimer = (\<lambda>w d. d \<le> 0),
      rendererFails = (\<lambda>cs c. False)\<rparr>"

definition startWorld :: World where
  "startWorld = \<lparr>now = 0, calls = [], intervalRunning = True\<rparr>"

section \<open>Properties of the lexer and the parser\<close>

definition lexWF :: "lexer \<Rightarrow> bool" where
  "lexWF l = (lxReadPos l = lxPosition l + 1 \<and>
     lxCh l = (if lxPosition l < length (lxInput l) then lxInput l ! lxPosition l else CHR 0x00))"

lemma readChar_lexWF: "lexWF l \<Longrightarrow> lexWF (readChar l)"
  by (auto simp: lexWF_def readChar_def)

lemma newLexer_lexWF: "lexWF (newLexer s)"
  by (auto simp: lexWF_def newLexer_def readChar_def)

lemma skipWhitespace_to_end:
  assumes "lexWF l"
    and "\<forall>i. lxPosition l \<le> i \<and> i < length (lxInput l) \<longrightarrow> isWhitespace (lxInput l ! i)"
  shows "lxCh (skipWhitespace l) = CHR 0x00"
  using assms
proof (induction l rule: skipWhitespace.induct)
  case (1 l)
  show ?case
  proof (cases "isWhitespace (lxCh l)")
    case True
    have wf': "lexWF (readChar l)" using "1.prems"(1) by (rule readChar_lexWF)
    have pos': "lxPosition (readChar l) = lxPosition l + 1" "lxInput (readChar l) = lxInput l"
      using "1.prems"(1) by (simp_all add: lexWF_def readChar_def)
    have "lxCh (skipWhitespace (readChar l)) = CHR 0x00"
      using "1.IH" [OF True wf'] "1.prems"(2) pos' by simp
    then show ?thesis using True by (subst skipWhitespace.simps) simp
  next
    case False
    have "\<not> lxPosition l < length (lxInput l)"
    proof
      assume lt: "lxPosition l < length (lxInput l)"
      then have "lxCh l = lxInput l ! lxPosition l" using "1.prems"(1) by (simp add: lexWF_def)
      moreover have "isWhitespace (lxInput l ! lxPosition l)" using "1.prems"(2) lt by simp
      ultimately show False using False by simp
    qed
    then have "lxCh l = CHR 0x00" using "1.prems"(1) by (simp add: lexWF_def)
    then show ?thesis using False by (subst skipWhitespace.simps) simp
  qed
qed

lemma nextToken_at_end:
  assumes "lxCh (skipWhitespace l) = CHR 0x00"
  shows "nextToken l = (mkToken tokenEOF [] (lxPosition (skipWhitespace l)), skipWhitespace l)"
  using assms by (subst nextToken.simps) (simp add: Let_def)

lemma skipWhitespace_idle: "lxCh l = CHR 0x00 \<Longrightarrow> skipWhitespace l = l"
  by (subst skipWhitespace.simps) (simp add: isWhitespace_def)

lemma readChar_input: "lxInput (readChar l) = lxInput l"
  by (simp add: readChar_def)

lemma readChar_position: "lexWF l \<Longrightarrow> lxPosition (readChar l) = lxPosition l + 1"
  by (simp add: readChar_def lexWF_def)

lemma lexWF_ch:
  "lexWF l \<Longrightarrow> lxCh l \<noteq> CHR 0x00 \<Longrightarrow>
   lxPosition l < length (lxInput l) \<and> lxInput l ! lxPosition l = lxCh l"
  by (auto simp: lexWF_def split: if_splits)

lemma skipWhitespace_lexWF:
  "lexWF l \<Longrightarrow> lexWF (skipWhitespace l) \<and> lxInput (skipWhitespace l) = lxInput l"
proof (induction l rule: skipWhitespace.induct)
  case (1 l)
  show ?case
  proof (cases "isWhitespace (lxCh l)")
    case True
    with 1 show ?thesis by (subst (1 2) skipWhitespace.simps) (simp add: readChar_lexWF readChar_input)
  next
    case False
    with 1 show ?thesis by (subst (1 2) skipWhitespace.simps) simp
  qed
qed

text \<open>
  A loop that copies bytes while a condition holds returns the bytes of the input from
  the position where it started.
\<close>

definition copied :: "lexer \<Rightarrow> string \<Rightarrow> string \<times> lexer \<Rightarrow> bool" where
  "copied l sb r =
     (\<exists>k. fst r = sb @ take k (drop (lxPosition l) (lxInput l))
        \<and> (k = 0 \<or> lxPosition l + k \<le> length (lxInput l))
        \<and> lexWF (snd r) \<and> lxInput (snd r) = lxInput l \<and> lxPosition (snd r) = lxPosition l + k)"

lemma copied_step:
  assumes wf: "lexWF l" and nz: "lxCh l \<noteq> CHR 0x00"
    and rec: "copied (readChar l) (sb @ [lxCh l]) r"
  shows "copied l sb r"
proof -
  from lexWF_ch [OF wf nz] have lt: "lxPosition l < length (lxInput l)"
    and ch: "lxInput l ! lxPosition l = lxCh l" by auto
  from rec obtain k where k:
    "fst r = (sb @ [lxCh l]) @ take k (drop (lxPosition (readChar l)) (lxInput (readChar l)))"
    "k = 0 \<or> lxPosition (readChar l) + k \<le> length (lxInput (readChar l))"
    "lexWF (snd r)" "lxInput (snd r) = lxInput (readChar l)"
    "lxPosition (snd r) = lxPosition (readChar l) + k"
    unfolding copied_def by blast
  have "take (Suc k) (drop (lxPosition l) (lxInput l))
      = lxCh l # take k (drop (Suc (lxPosition l)) (lxInput l))"
    using lt ch by (simp add: Cons_nth_drop_Suc [symmetric])
  then show ?thesis
    unfolding copied_def
    using k lt by (intro exI [of _ "Suc k"]) (auto simp: readChar_input readChar_position [OF wf])
qed

lemma copied_stop: "lexWF l \<Longrightarrow> copied l sb (sb, l)"
  unfolding copied_def by (intro exI [of _ 0]) simp

lemma copied_nonempty:
  assumes wf: "lexWF l" and nz: "lxCh l \<noteq> CHR 0x00"
    and rec: "copied (readChar l) (sb @ [lxCh l]) r"
  shows "length sb < length (fst r)"
  using rec unfolding copied_def by auto

lemma readDigitsLoop_copied: "lexWF l \<Longrightarrow> copied l sb (readDigitsLoop l sb)"
proof (induction l sb rule: readDigitsLoop.induct)
  case (1 l sb)
  show ?case
  proof (cases "isDigit (lxCh l)")
    case True
    have "copied (readChar l) (sb @ [lxCh l]) (readDigitsLoop (readChar l) (sb @ [lxCh l]))"
      using "1.IH" [OF True] "1.prems" by (simp add: readChar_lexWF)
    then have "copied l sb (readDigitsLoop (readChar l) (sb @ [lxCh l]))"
      using "1.prems" True by (auto intro: copied_step dest: isDigit_not_nul)
    then show ?thesis using True by (subst readDigitsLoop.simps) simp
  next
    case False
    then show ?thesis using "1.prems" by (subst readDigitsLoop.simps) (simp add: copied_stop)
  qed
qed

lemma readIdentLoop_copied: "lexWF l \<Longrightarrow> copied l sb (readIdentLoop l sb)"
proof (induction l sb rule: readIdentLoop.induct)
  case (1 l sb)
  show ?case
  proof (cases "isLetter (lxCh l) \<or> isDigit (lxCh l) \<or> lxCh l = CHR ''+''")
    case True
    then have nz: "lxCh l \<noteq> CHR 0x00" by (auto dest: isDigit_not_nul isLetter_not_nul)
    have "copied (readChar l) (sb @ [lxCh l]) (readIdentLoop (readChar l) (sb @ [lxCh l]))"
      using "1.IH" [OF True] "1.prems" by (simp add: readChar_lexWF)
    then have "copied l sb (readIdentLoop (readChar l) (sb @ [lxCh l]))"
      using "1.prems" nz by (auto intro: copied_step)
    then show ?thesis using True by (subst readIdentLoop.simps) simp
  next
    case False
    then show ?thesis using "1.prems" by (subst readIdentLoop.simps) (simp add: copied_stop)
  qed
qed

lemma readStringLoop_copied: "lexWF l \<Longrightarrow> copied l sb (readStringLoop q l sb)"
proof (induction q l sb rule: readStringLoop.induct)
  case (1 q l sb)
  show ?case
  proof (cases "lxCh l \<noteq> q \<and> lxCh l \<noteq> CHR 0x00")
    case True
    have "copied (readChar l) (sb @ [lxCh l]) (readStringLoop q (readChar l) (sb @ [lxCh l]))"
      using "1.IH" [OF True] "1.prems" by (simp add: readChar_lexWF)
    then have "copied l sb (readStringLoop q (readChar l) (sb @ [lxCh l]))"
      using "1.prems" True by (auto intro: copied_step)
    then show ?thesis using True by (subst readStringLoop.simps) simp
  next
    case False
    then show ?thesis using "1.prems" by (subst readStringLoop.simps) (auto simp: copied_stop)
  qed
qed

text \<open>
  \<open>tokenAtOffset script t\<close>: the position of \<open>t\<close> is the zero-based offset in \<open>script\<close> of
  the first byte of the token. For the end-of-input token that is the end of the script
  (or a NUL byte, which the lexer takes for the end); for a string it is the offset of
  the opening quote; for any other token the literal is the text of the script there.
\<close>

definition tokenAtOffset :: "string \<Rightarrow> token \<Rightarrow> bool" where
  "tokenAtOffset script t =
     (case tkKind t of
        tokenEOF \<Rightarrow> length script \<le> tkPosition t \<or> script ! tkPosition t = CHR 0x00
      | tokenString \<Rightarrow>
          tkPosition t < length script
          \<and> (script ! tkPosition t = CHR 0x27 \<or> script ! tkPosition t = CHR 0x22)
      | _ \<Rightarrow>
          tkLiteral t \<noteq> [] \<and> tkPosition t + length (tkLiteral t) \<le> length script
          \<and> take (length (tkLiteral t)) (drop (tkPosition t) script) = tkLiteral t)"

lemma nextToken_cases_wf [consumes 1, case_names at plus str eof num ident]:
  assumes wf0: "lexWF l0"
    and "\<And>l. lexWF l \<Longrightarrow> lxInput l = lxInput l0 \<Longrightarrow> lxCh l = CHR ''@'' \<Longrightarrow>
           nextToken l0 = (mkToken tokenAt ''@'' (lxPosition l), readChar l) \<Longrightarrow> P"
    and "\<And>l. lexWF l \<Longrightarrow> lxInput l = lxInput l0 \<Longrightarrow> lxCh l = CHR ''+'' \<Longrightarrow>
           nextToken l0 = (mkToken tokenPlus ''+'' (lxPosition l), readChar l) \<Longrightarrow> P"
    and "\<And>l q. lexWF l \<Longrightarrow> lxInput l = lxInput l0 \<Longrightarrow> lxCh l = q \<Longrightarrow> q = CHR 0x27 \<or> q = CHR 0x22 \<Longrightarrow>
           nextToken l0 = readString q l \<Longrightarrow> P"
    and "\<And>l. lexWF l \<Longrightarrow> lxInput l = lxInput l0 \<Longrightarrow> lxCh l = CHR 0x00 \<Longrightarrow>
           nextToken l0 = (mkToken tokenEOF [] (lxPosition l), l) \<Longrightarrow> P"
    and "\<And>l. lexWF l \<Longrightarrow> lxInput l = lxInput l0 \<Longrightarrow> isDigit (lxCh l) \<Longrightarrow>
           nextToken l0 = readNumberOrDuration l \<Longrightarrow> P"
    and "\<And>l. lexWF l \<Longrightarrow> lxInput l = lxInput l0 \<Longrightarrow> isLetter (lxCh l) \<Longrightarrow>
           nextToken l0 = readIdent l \<Longrightarrow> P"
  shows P
  using assms
proof (induction l0 rule: nextToken.induct)
  case (1 l0)
  define l where "l = skipWhitespace l0"
  have wf: "lexWF l" and inp: "lxInput l = lxInput l0"
    using skipWhitespace_lexWF [OF "1.prems"(1)] by (simp_all add: l_def)
  consider (at) "lxCh l = CHR ''@''"
    | (plus) "lxCh l = CHR ''+''"
    | (sq) "lxCh l = CHR 0x27"
    | (dq) "lxCh l = CHR 0x22"
    | (eof) "lxCh l = CHR 0x00"
    | (digit) "lxCh l \<noteq> CHR ''@''" "lxCh l \<noteq> CHR ''+''" "lxCh l \<noteq> CHR 0x27" "lxCh l \<noteq> CHR 0x22"
        "lxCh l \<noteq> CHR 0x00" "isDigit (lxCh l)"
    | (letter) "lxCh l \<noteq> CHR ''@''" "lxCh l \<noteq> CHR ''+''" "lxCh l \<noteq> CHR 0x27" "lxCh l \<noteq> CHR 0x22"
        "lxCh l \<noteq> CHR 0x00" "\<not> isDigit (lxCh l)" "isLetter (lxCh l)"
    | (other) "lxCh l \<noteq> CHR ''@''" "lxCh l \<noteq> CHR ''+''" "lxCh l \<noteq> CHR 0x27" "lxCh l \<noteq> CHR 0x22"
        "lxCh l \<noteq> CHR 0x00" "\<not> isDigit (lxCh l)" "\<not> isLetter (lxCh l)"
    by blast
  then show ?case
  proof cases
    case at
    then have "nextToken l0 = (mkToken tokenAt ''@'' (lxPosition l), readChar l)"
      by (subst nextToken.simps) (simp add: l_def Let_def)
    with wf inp at show ?thesis by (rule "1.prems"(2))
  next
    case plus
    then have "nextToken l0 = (mkToken tokenPlus ''+'' (lxPosition l), readChar l)"
      by (subst nextToken.simps) (simp add: l_def Let_def)
    with wf inp plus show ?thesis by (rule "1.prems"(3))
  next
    case sq
    then have "nextToken l0 = readString (CHR 0x27) l"
      by (subst nextToken.simps) (simp add: l_def Let_def)
    with wf inp sq show ?thesis using "1.prems"(4) [of l "CHR 0x27"] by simp
  next
    case dq
    then have "nextToken l0 = readString (CHR 0x22) l"
      by (subst nextToken.simps) (simp add: l_def Let_def)
    with wf inp dq show ?thesis using "1.prems"(4) [of l "CHR 0x22"] by simp
  next
    case eof
    then have "nextToken l0 = (mkToken tokenEOF [] (lxPosition l), l)"
      by (subst nextToken.simps) (simp add: l_def Let_def)
    with wf inp eof show ?thesis by (rule "1.prems"(5))
  next
    case digit
    then have "nextToken l0 = readNumberOrDuration l"
      by (subst nextToken.simps) (simp add: l_def Let_def)
    with wf inp digit(6) show ?thesis by (rule "1.prems"(6))
  next
    case letter
    then have "nextToken l0 = readIdent l"
      by (subst nextToken.simps) (simp add: l_def Let_def)
    with wf inp letter(7) show ?thesis by (rule "1.prems"(7))
  next
    case other
    then have eq: "nextToken l0 = nextToken (readChar l)"
      by (subst nextToken.simps) (simp add: l_def Let_def)
    have inp': "lxInput (readChar l) = lxInput l0" using inp by (simp add: readChar_input)
    show ?thesis
    proof (rule "1.IH" [OF l_def refl])
      show "lxCh l \<noteq> CHR ''@''" "lxCh l \<noteq> CHR ''+''" "lxCh l \<noteq> CHR 0x27" "lxCh l \<noteq> CHR 0x22"
        "lxCh l \<noteq> CHR 0x00" "\<not> isDigit (lxCh l)" "\<not> isLetter (lxCh l)"
        using other by auto
      show "lexWF (readChar l)" using wf by (rule readChar_lexWF)
    next
      fix l' assume "lexWF l'" "lxInput l' = lxInput (readChar l)" "lxCh l' = CHR ''@''"
        "nextToken (readChar l) = (mkToken tokenAt ''@'' (lxPosition l'), readChar l')"
      then show P using "1.prems"(2) [of l'] by (simp add: eq inp')
    next
      fix l' assume "lexWF l'" "lxInput l' = lxInput (readChar l)" "lxCh l' = CHR ''+''"
        "nextToken (readChar l) = (mkToken tokenPlus ''+'' (lxPosition l'), readChar l')"
      then show P using "1.prems"(3) [of l'] by (simp add: eq inp')
    next
      fix l' q assume "lexWF l'" "lxInput l' = lxInput (readChar l)" "lxCh l' = q"
        "q = CHR 0x27 \<or> q = CHR 0x22" "nextToken (readChar l) = readString q l'"
      then show P using "1.prems"(4) [of l' q] by (simp add: eq inp')
    next
      fix l' assume "lexWF l'" "lxInput l' = lxInput (readChar l)" "lxCh l' = CHR 0x00"
        "nextToken (readChar l) = (mkToken tokenEOF [] (lxPosition l'), l')"
      then show P using "1.prems"(5) [of l'] by (simp add: eq inp')
    next
      fix l' assume "lexWF l'" "lxInput l' = lxInput (readChar l)" "isDigit (lxCh l')"
        "nextToken (readChar l) = readNumberOrDuration l'"
      then show P using "1.prems"(6) [of l'] by (simp add: eq inp')
    next
      fix l' assume "lexWF l'" "lxInput l' = lxInput (readChar l)" "isLetter (lxCh l')"
        "nextToken (readChar l) = readIdent l'"
      then show P using "1.prems"(7) [of l'] by (simp add: eq inp')
    qed
  qed
qed

lemma readDigitsLoop_digits:
  "list_all isDigit sb \<Longrightarrow> list_all isDigit (fst (readDigitsLoop l sb))"
proof (induction l sb rule: readDigitsLoop.induct)
  case (1 l sb)
  show ?case
  proof (cases "isDigit (lxCh l)")
    case True
    with 1 show ?thesis by (subst readDigitsLoop.simps) simp
  next
    case False
    with 1 show ?thesis by (subst readDigitsLoop.simps) simp
  qed
qed

text \<open>The literal of a number token is a run of decimal digits; a duration token adds \<open>ms\<close> or \<open>s\<close>.\<close>

lemma readNumberOrDuration_literal:
  "\<exists>ds. list_all isDigit ds \<and>
     ((tkKind (fst (readNumberOrDuration l)) = tokenNumber \<and> tkLiteral (fst (readNumberOrDuration l)) = ds)
      \<or> (tkKind (fst (readNumberOrDuration l)) = tokenDuration
          \<and> (tkLiteral (fst (readNumberOrDuration l)) = ds @ ''ms'' \<or> tkLiteral (fst (readNumberOrDuration l)) = ds @ ''s'')))"
proof -
  obtain numStr l1 where r: "readDigitsLoop l [] = (numStr, l1)" by (cases "readDigitsLoop l []")
  have d: "list_all isDigit numStr" using readDigitsLoop_digits [of "[]" l] r by simp
  have p: "lxCh l1 = CHR ''m'' \<Longrightarrow> peekChar l1 = CHR ''s'' \<Longrightarrow> lxCh (readChar l1) = CHR ''s''"
    by (simp add: peekChar_def readChar_def)
  show ?thesis
    using d p by (intro exI [of _ numStr]) (auto simp: readNumberOrDuration_def r Let_def mkToken_def)
qed

lemma single_byte_at:
  assumes "lexWF l" and "lxCh l = c" and "c \<noteq> CHR 0x00"
  shows "tokenAtOffset (lxInput l) (mkToken k [c] (lxPosition l)) \<or> k = tokenEOF \<or> k = tokenString"
proof -
  from lexWF_ch [OF assms(1)] assms(2,3)
  have lt: "lxPosition l < length (lxInput l)" and ch: "lxInput l ! lxPosition l = c" by auto
  have "take (Suc 0) (drop (lxPosition l) (lxInput l)) = [c]"
    using lt ch by (simp add: Cons_nth_drop_Suc [symmetric])
  then show ?thesis using lt by (cases k) (auto simp: tokenAtOffset_def mkToken_def)
qed

lemma readNumberOrDuration_at:
  assumes wf: "lexWF l" and d: "isDigit (lxCh l)"
  shows "tokenAtOffset (lxInput l) (fst (readNumberOrDuration l))
     \<and> lexWF (snd (readNumberOrDuration l)) \<and> lxInput (snd (readNumberOrDuration l)) = lxInput l"
proof -
  obtain numStr l1 where r: "readDigitsLoop l [] = (numStr, l1)" by (cases "readDigitsLoop l []")
  have r': "readDigitsLoop l [] = readDigitsLoop (readChar l) ([] @ [lxCh l])"
    using d by (subst readDigitsLoop.simps) simp
  have c0: "copied (readChar l) ([] @ [lxCh l]) (readDigitsLoop (readChar l) ([] @ [lxCh l]))"
    using wf by (intro readDigitsLoop_copied readChar_lexWF)
  have ne: "numStr \<noteq> []"
    using copied_nonempty [OF wf isDigit_not_nul [OF d] c0] r r' by auto
  from readDigitsLoop_copied [OF wf, of "[]"] r obtain k where k:
    "numStr = take k (drop (lxPosition l) (lxInput l))" "k = 0 \<or> lxPosition l + k \<le> length (lxInput l)"
    "lexWF l1" "lxInput l1 = lxInput l" "lxPosition l1 = lxPosition l + k"
    unfolding copied_def by auto
  have lk: "length numStr = k" using k(1,2) by auto
  let ?inp = "lxInput l" and ?p = "lxPosition l"
  show ?thesis
  proof (cases "lxCh l1 = CHR ''m'' \<and> peekChar l1 = CHR ''s''")
    case True
    have m: "?p + k < length ?inp" "?inp ! (?p + k) = CHR ''m''"
      using lexWF_ch [OF k(3)] True k(4,5) by auto
    have s: "?p + k + 1 < length ?inp" "?inp ! (?p + k + 1) = CHR ''s''"
      using True k(3,4,5) by (auto simp: peekChar_def lexWF_def split: if_splits)
    have l2: "lxCh (readChar l1) = CHR ''s''" using True by (simp add: peekChar_def readChar_def)
    have "take (k + 2) (drop ?p ?inp) = take k (drop ?p ?inp) @ [?inp ! (?p + k), ?inp ! (?p + k + 1)]"
      using s m by (simp add: take_Suc_conv_app_nth add.commute)
    then have t: "take (k + 2) (drop ?p ?inp) = numStr @ ''ms''" using k(1) m s by simp
    have tok: "readNumberOrDuration l = (mkToken tokenDuration (numStr @ ''ms'') ?p, readChar (readChar l1))"
      using True l2 by (simp add: readNumberOrDuration_def r Let_def)
    show ?thesis
      using t s lk k(3,4) by (simp add: tok tokenAtOffset_def mkToken_def readChar_lexWF readChar_input)
  next
    case nms: False
    show ?thesis
    proof (cases "lxCh l1 = CHR ''s''")
      case True
      have s: "?p + k < length ?inp" "?inp ! (?p + k) = CHR ''s''"
        using lexWF_ch [OF k(3)] True k(4,5) by auto
      have "take (k + 1) (drop ?p ?inp) = take k (drop ?p ?inp) @ [?inp ! (?p + k)]"
        using s by (simp add: take_Suc_conv_app_nth add.commute)
      then have t: "take (k + 1) (drop ?p ?inp) = numStr @ ''s''" using k(1) s by simp
      have tok: "readNumberOrDuration l = (mkToken tokenDuration (numStr @ ''s'') ?p, readChar l1)"
        using True nms by (simp add: readNumberOrDuration_def r Let_def)
      show ?thesis
        using t s lk k(3,4) by (simp add: tok tokenAtOffset_def mkToken_def readChar_lexWF readChar_input)
    next
      case False
      have tok: "readNumberOrDuration l = (mkToken tokenNumber numStr ?p, l1)"
        using False nms by (auto simp: readNumberOrDuration_def r Let_def)
      show ?thesis
        using ne k lk by (simp add: tok tokenAtOffset_def mkToken_def)
    qed
  qed
qed

lemma readIdent_at:
  assumes wf: "lexWF l" and d: "isLetter (lxCh l)"
  shows "tokenAtOffset (lxInput l) (fst (readIdent l))
     \<and> lexWF (snd (readIdent l)) \<and> lxInput (snd (readIdent l)) = lxInput l"
proof -
  obtain sb l1 where r: "readIdentLoop l [] = (sb, l1)" by (cases "readIdentLoop l []")
  have r': "readIdentLoop l [] = readIdentLoop (readChar l) ([] @ [lxCh l])"
    using d by (subst readIdentLoop.simps) simp
  have c0: "copied (readChar l) ([] @ [lxCh l]) (readIdentLoop (readChar l) ([] @ [lxCh l]))"
    using wf by (intro readIdentLoop_copied readChar_lexWF)
  have ne: "sb \<noteq> []"
    using copied_nonempty [OF wf isLetter_not_nul [OF d] c0] r r' by auto
  from readIdentLoop_copied [OF wf, of "[]"] r obtain k where k:
    "sb = take k (drop (lxPosition l) (lxInput l))" "k = 0 \<or> lxPosition l + k \<le> length (lxInput l)"
    "lexWF l1" "lxInput l1 = lxInput l" "lxPosition l1 = lxPosition l + k"
    unfolding copied_def by auto
  have lk: "length sb = k" using k(1,2) by auto
  show ?thesis using ne k lk by (simp add: readIdent_def r tokenAtOffset_def mkToken_def)
qed

lemma readString_at:
  assumes wf: "lexWF l" and q: "lxCh l = q" "q = CHR 0x27 \<or> q = CHR 0x22"
  shows "tokenAtOffset (lxInput l) (fst (readString q l))
     \<and> lexWF (snd (readString q l)) \<and> lxInput (snd (readString q l)) = lxInput l"
proof -
  obtain sb l2 where r: "readStringLoop q (readChar l) [] = (sb, l2)"
    by (cases "readStringLoop q (readChar l) []")
  have nz: "lxCh l \<noteq> CHR 0x00" using q by auto
  from lexWF_ch [OF wf nz] q have lt: "lxPosition l < length (lxInput l)"
    and ch: "lxInput l ! lxPosition l = q" by auto
  from readStringLoop_copied [OF readChar_lexWF [OF wf], of "[]" q] r
  have "lexWF l2" "lxInput l2 = lxInput l" unfolding copied_def by (auto simp: readChar_input)
  then show ?thesis
    using lt ch q(2) by (auto simp: readString_def r tokenAtOffset_def mkToken_def readChar_lexWF readChar_input)
qed

lemma nextToken_at:
  assumes "lexWF l0"
  shows "tokenAtOffset (lxInput l0) (fst (nextToken l0))
     \<and> lexWF (snd (nextToken l0)) \<and> lxInput (snd (nextToken l0)) = lxInput l0"
  using assms
proof (cases l0 rule: nextToken_cases_wf)
  case (at l)
  then show ?thesis using single_byte_at [of l "CHR ''@''" tokenAt] by (simp add: readChar_lexWF readChar_input)
next
  case (plus l)
  then show ?thesis using single_byte_at [of l "CHR ''+''" tokenPlus] by (simp add: readChar_lexWF readChar_input)
next
  case (str l q)
  then show ?thesis using readString_at [of l q] by simp
next
  case (eof l)
  then show ?thesis by (auto simp: tokenAtOffset_def mkToken_def lexWF_def split: if_splits)
next
  case (num l)
  then show ?thesis using readNumberOrDuration_at [of l] by simp
next
  case (ident l)
  then show ?thesis using readIdent_at [of l] by simp
qed

text \<open>The literal of a number token is made of decimal digits only.\<close>

definition tokenOK :: "token \<Rightarrow> bool" where
  "tokenOK t = (tkKind t = tokenNumber \<longrightarrow> list_all isDigit (tkLiteral t))"

lemma nextToken_tokenOK:
  assumes "lexWF l0"
  shows "tokenOK (fst (nextToken l0))"
  using assms
proof (cases l0 rule: nextToken_cases_wf)
  case (num l)
  then show ?thesis using readNumberOrDuration_literal [of l] by (auto simp: tokenOK_def)
qed (auto simp: tokenOK_def mkToken_def readString_def readIdent_def split: prod.splits)

definition tokenInv :: "string \<Rightarrow> token \<Rightarrow> bool" where
  "tokenInv script t = (tokenAtOffset script t \<and> tokenOK t)"

text \<open>
  The invariant of the parser while it reads \<open>script\<close>: its lexer is in step with the
  script, and its two buffered tokens are tokens of the script at their offsets.
\<close>

definition parserInv :: "string \<Rightarrow> parser \<Rightarrow> bool" where
  "parserInv script p =
     (lexWF (pL p) \<and> lxInput (pL p) = script
      \<and> tokenInv script (curToken p) \<and> tokenInv script (peekToken p))"

lemma pNextToken_parserInv: "parserInv script p \<Longrightarrow> parserInv script (pNextToken p)"
  using nextToken_at [of "pL p"] nextToken_tokenOK [of "pL p"]
  by (auto simp: parserInv_def tokenInv_def pNextToken_def split: prod.splits)

lemma newParser_parserInv: "parserInv script (newParser (newLexer script))"
proof -
  let ?start = "newLexer script"
  obtain t1 l1 where n1: "nextToken ?start = (t1, l1)" by (cases "nextToken ?start")
  obtain t2 l2 where n2: "nextToken l1 = (t2, l2)" by (cases "nextToken l1")
  have inp: "lxInput ?start = script" by (simp add: newLexer_def readChar_def)
  have a1: "tokenInv script t1" "lexWF l1" "lxInput l1 = script"
    using nextToken_at [OF newLexer_lexWF, of script] nextToken_tokenOK [OF newLexer_lexWF, of script] n1 inp
    by (simp_all add: tokenInv_def)
  have a2: "tokenInv script t2" "lexWF l2" "lxInput l2 = script"
    using nextToken_at [OF a1(2)] nextToken_tokenOK [OF a1(2)] n2 a1(3)
    by (simp_all add: tokenInv_def)
  show ?thesis using a1 a2 by (simp add: parserInv_def newParser_def pNextToken_def n1 n2)
qed

lemma parseAction_steps:
  assumes "parseAction lib p = Inr (a, p')"
  shows "p' = pNextToken p \<or> p' = pNextToken (pNextToken p) \<or> p' = pNextToken (pNextToken (pNextToken p))
      \<or> p' = pNextToken (pNextToken (pNextToken (pNextToken p)))"
  using assms
  by (auto simp: parseAction_def parseCtrlAction_def parseTypeAction_def parseSleepAction_def
        parseKeyAction_def Let_def split: if_splits option.splits sum.splits)

lemma parseAction_parserInv:
  "parseAction lib p = Inr (a, p') \<Longrightarrow> parserInv script p \<Longrightarrow> parserInv script p'"
  using parseAction_steps [of lib p a p'] by (auto intro: pNextToken_parserInv)

text \<open>
  What the loop of \<open>Parse\<close> returns: every action was returned by \<open>parseAction\<close>, and an
  error is the error of a \<open>parseAction\<close>.
\<close>

lemma ParseLoop_actions:
  assumes "ParseLoop lib p acts = (Some res, err)" and "parserInv script p" and "a \<in> set res"
  shows "a \<in> set acts \<or> (\<exists>p0 p1. parserInv script p0 \<and> parseAction lib p0 = Inr (a, p1))"
  using assms
proof (induction lib p acts rule: ParseLoop.induct)
  case (1 lib p actions)
  show ?case
  proof (cases "tkKind (curToken p) \<noteq> tokenEOF")
    case False
    with "1.prems" show ?thesis by (subst (asm) ParseLoop.simps) simp
  next
    case True
    with "1.prems"(1) obtain action p' where
      pa: "parseAction lib p = Inr (action, p')" and
      r: "ParseLoop lib p' (actions @ [action]) = (Some res, err)"
      by (subst (asm) ParseLoop.simps) (auto split: sum.splits)
    have ok': "parserInv script p'" using pa "1.prems"(2) by (rule parseAction_parserInv)
    from "1.IH" [OF True pa refl r ok' "1.prems"(3)]
    show ?thesis using pa "1.prems"(2) by auto
  qed
qed


lemma ParseLoop_all_or_nothing:
  "(\<exists>res. ParseLoop lib p acts = (Some res, None)) \<or> (\<exists>e. ParseLoop lib p acts = (None, Some e))"
proof (induction lib p acts rule: ParseLoop.induct)
  case (1 lib p actions)
  show ?case
  proof (cases "tkKind (curToken p) \<noteq> tokenEOF")
    case False
    then show ?thesis by (subst ParseLoop.simps, subst ParseLoop.simps) simp
  next
    case True
    show ?thesis
    proof (cases "parseAction lib p")
      case (Inl e')
      with True show ?thesis by (subst ParseLoop.simps, subst ParseLoop.simps) simp
    next
      case (Inr ap)
      obtain action p' where ap: "ap = (action, p')" by (cases ap)
      have eq: "ParseLoop lib p actions = ParseLoop lib p' (actions @ [action])"
        using True Inr ap by (subst ParseLoop.simps) simp
      from "1.IH" [OF True _ refl] Inr ap show ?thesis unfolding eq by simp
    qed
  qed
qed

text \<open>
  Where a parse error points: \<open>errorAt lib t e\<close> says that the error \<open>e\<close> carries the
  position of the token \<open>t\<close> and one of the parser's seven messages, written for \<open>t\<close>.
\<close>

definition errorAt :: "GoLib \<Rightarrow> token \<Rightarrow> ParseError \<Rightarrow> bool" where
  "errorAt lib t e =
     (Position e = tkPosition t \<and>
      (Message e = ''expected command or key, got '' @ tkLiteral t
       \<or> (tkKind t = tokenIdent \<and> Message e = unknownKeyMessage lib (tkLiteral t))
       \<or> Message e = ''expected quoted string after Type''
       \<or> Message e = ''expected duration after Sleep''
       \<or> Message e = ''expected duration after @''
       \<or> Message e = invalidDurationMessage lib (tkLiteral t)
       \<or> Message e = ''invalid repeat count '' @ quote lib (tkLiteral t)))"



text \<open>The optional \<open>@duration\<close> of a Type or Key action, as both parse functions read it.\<close>

lemma modifier_errorAt:
  assumes "(if tkKind (curToken p2) \<noteq> tokenDuration \<and> tkKind (curToken p2) \<noteq> tokenNumber then
              Inl \<lparr>Position = tkPosition (curToken p2), Message = ''expected duration after @''\<rparr>
            else (case parseDuration (tkLiteral (curToken p2)) of
                    None \<Rightarrow> Inl \<lparr>Position = tkPosition (curToken p2),
                                  Message = invalidDurationMessage lib (tkLiteral (curToken p2))\<rparr>
                  | Some duration \<Rightarrow> Inr (f duration))) = Inl e"
  shows "errorAt lib (curToken p2) e"
  using assms by (auto simp: errorAt_def split: if_splits option.splits)






lemma parseTypeAction_kind: "parseTypeAction lib p = Inr (a, p') \<Longrightarrow> Kind a = ActionType"
  by (auto simp: parseTypeAction_def zeroAction_def Let_def split: if_splits option.splits)

lemma parseSleepAction_kind: "parseSleepAction lib p = Inr (a, p') \<Longrightarrow> Kind a = ActionSleep"
  by (auto simp: parseSleepAction_def zeroAction_def Let_def split: if_splits option.splits)

lemma parseCtrlAction_kind: "parseCtrlAction lib p = Inr (a, p') \<Longrightarrow> Kind a = ActionCtrl"
  by (auto simp: parseCtrlAction_def zeroAction_def Let_def)










lemma ParseDuration_zero: "ParseDuration ''0'' = Some 0"
  by (simp add: ParseDuration_def)













section \<open>The two key tables\<close>

lemma validKeysAt_names: "validKeysAt k = (k \<in> set (map fst validKeys))"
  by (simp add: validKeysAt_def validKeys_def)

lemma validKeysAt_code: "validKeysAt k \<Longrightarrow> \<exists>code. map_of specialKeyCodes k = Some code"
  by (auto simp: validKeysAt_names validKeys_def specialKeyCodes_def)

lemma validKeysAt_not_ctrl: "validKeysAt k \<Longrightarrow> \<not> HasPrefix k ''ctrl+''"
  by (auto simp: validKeysAt_names validKeys_def HasPrefix_def)

lemma validKeysAt_isValidKey: "validKeysAt (ToLower lib key) \<Longrightarrow> isValidKey lib key"
  by (simp add: isValidKey_def Let_def)

lemma validKeysAt_dispatchable:
  assumes "validKeysAt (ToLower lib key)"
  shows "dispatchable lib key"
proof -
  from validKeysAt_code [OF assms] obtain code where "map_of specialKeyCodes (ToLower lib key) = Some code" ..
  then show ?thesis by (simp add: dispatchable_def KeyToKeyCode_def Let_def)
qed

lemma KEYNAME_lower: "map (ToLower lib) KEYNAME = map fst validKeys"
  by code_simp

lemma parseKeyAction_key:
  assumes "parseKeyAction lib p = Inr (a, p')"
  shows "Key a = tkLiteral (curToken p) \<and> isValidKey lib (tkLiteral (curToken p))"
proof (cases "tkKind (curToken (pNextToken p)) = tokenAt")
  case False
  with assms show ?thesis
    by (auto simp: parseKeyAction_def zeroAction_def Let_def split: if_splits option.splits)
next
  case True
  with assms show ?thesis
    by (auto simp: parseKeyAction_def zeroAction_def Let_def split: if_splits option.splits)
qed

lemma parseAction_key_valid:
  assumes "parseAction lib p = Inr (a, p')" and "Kind a = ActionKey"
  shows "validKeysAt (ToLower lib (Key a))"
proof -
  from assms(1) consider
      (ct) "parseCtrlAction lib p = Inr (a, p')"
    | (ty) "parseTypeAction lib p = Inr (a, p')"
    | (sl) "parseSleepAction lib p = Inr (a, p')"
    | (ky) "parseKeyAction lib p = Inr (a, p')" "\<not> HasPrefix (ToLower lib (tkLiteral (curToken p))) ''ctrl+''"
    by (auto simp: parseAction_def Let_def split: if_splits)
  then show ?thesis
  proof cases
    case ct
    then show ?thesis using parseCtrlAction_kind assms(2) by fastforce
  next
    case ty
    then show ?thesis using parseTypeAction_kind assms(2) by fastforce
  next
    case sl
    then show ?thesis using parseSleepAction_kind assms(2) by fastforce
  next
    case ky
    from parseKeyAction_key [OF ky(1)] have k: "Key a = tkLiteral (curToken p)" and v: "isValidKey lib (Key a)"
      by simp_all
    from v ky(2) show ?thesis unfolding k by (simp add: isValidKey_def Let_def split: if_splits)
  qed
qed

lemma sendKeypress_named_key:
  assumes "validKeysAt (ToLower (goLib env) key)"
  shows "\<exists>code. KeyToKeyCode (goLib env) key = Inr code \<and>
     (\<forall>w. sendKeypress env key w = rendererRun env (KeyEvent code) w)"
proof -
  have nc: "\<not> isCtrlKey env key"
    using validKeysAt_not_ctrl [OF assms] by (simp add: isCtrlKey_def Let_def)
  from validKeysAt_dispatchable [OF assms] obtain code where c: "KeyToKeyCode (goLib env) key = Inr code"
    by (auto simp: dispatchable_def split: sum.splits)
  show ?thesis using nc c by (simp add: sendKeypress_def)
qed

section \<open>Properties of the engine\<close>

definition specExample :: "Action list" where
  "specExample =
     [zeroAction\<lparr>Kind := ActionSleep, Duration := Second\<rparr>,
      zeroAction\<lparr>Kind := ActionType, Text := ''ls -la'', Speed := 50 * Millisecond\<rparr>,
      zeroAction\<lparr>Kind := ActionKey, Key := ''Enter'', Repeat := 1\<rparr>,
      zeroAction\<lparr>Kind := ActionSleep, Duration := 500 * Millisecond\<rparr>]"

lemma executeActionsLoop_append:
  "executeActionsLoop env i (pre @ rest) w =
     (case executeActionsLoop env i pre w of
        (Some err, w1) \<Rightarrow> (Some err, w1)
      | (None, w1) \<Rightarrow> executeActionsLoop env (i + length pre) rest w1)"
  by (induction pre arbitrary: i w) (auto split: prod.splits option.splits)

lemma waitFor_calls: "calls (snd (waitFor env d w)) = calls w"
  by (simp add: waitFor_def Let_def split: option.splits)

definition keyCall :: "Env \<Rightarrow> string \<Rightarrow> RendererCall" where
  "keyCall env key =
     (if isCtrlKey env key then CtrlKeyEvent (drop 5 (ToLower (goLib env) key))
      else (case KeyToKeyCode (goLib env) key of Inr keyCode \<Rightarrow> KeyEvent keyCode | Inl err \<Rightarrow> KeyEvent key))"

lemma sendKeypress_ok:
  "sendKeypress env key w = (None, w') \<Longrightarrow> w' = w\<lparr>calls := calls w @ [keyCall env key]\<rparr>"
  by (auto simp: sendKeypress_def sendCtrlKeypress_def rendererRun_def keyCall_def isCtrlKey_def Let_def
      split: if_splits sum.splits)

lemma executeKeyLoop_ok:
  "executeKeyLoop env a i r w = (None, w') \<Longrightarrow>
   calls w' = calls w @ replicate (nat (r - i)) (keyCall env (Key a))"
proof (induction env a i r w rule: executeKeyLoop.induct)
  case (1 env action i repeat w)
  show ?case
  proof (cases "i < repeat")
    case False
    with "1.prems" show ?thesis by (subst (asm) executeKeyLoop.simps) simp
  next
    case True
    from "1.prems" True have nd: "\<not> ctxDone env w"
      by (subst (asm) executeKeyLoop.simps) (auto split: if_splits)
    from "1.prems" True nd obtain w1 where
      s: "sendKeypress env (Key action) w = (None, w1)" and
      r: "executeKeyLoop env action (i + 1) repeat w1 = (None, w')"
      by (subst (asm) executeKeyLoop.simps) (auto split: prod.splits option.splits)
    have c1: "calls w1 = calls w @ [keyCall env (Key action)]"
      using sendKeypress_ok [OF s] by simp
    have "calls w' = calls w1 @ replicate (nat (repeat - (i + 1))) (keyCall env (Key action))"
      using "1.IH" [OF True nd _ _ r] s by simp
    moreover have "nat (repeat - i) = Suc (nat (repeat - (i + 1)))" using True by simp
    ultimately show ?thesis using c1 by (simp add: replicate_app_Cons_same)
  qed
qed

subsection \<open>Typing printable ASCII\<close>











subsection \<open>Cancellation\<close>

text \<open>
  The run under a context that is done at the instant \<open>c\<close> is compared with the run of
  the same steps under a context that is never done. Steps are functions from the world
  to a result and a world; \<open>andThen\<close> is Go's \<open>if err := f(); err != nil { return err }\<close>
  followed by \<open>g\<close>.
\<close>

type_synonym step = "World \<Rightarrow> EngineError option \<times> World"

definition andThen :: "step \<Rightarrow> step \<Rightarrow> step" where
  "andThen f g w = (case f w of (Some err, w1) \<Rightarrow> (Some err, w1) | (None, w1) \<Rightarrow> g w1)"

definition skipStep :: step where
  "skipStep w = (None, w)"

definition checkCtx :: "Env \<Rightarrow> step" where
  "checkCtx env w = (if ctxDone env w then (Some ContextErr, w) else (None, w))"

definition growsCalls :: "step \<Rightarrow> bool" where
  "growsCalls f = (\<forall>w. \<exists>xs. calls (snd (f w)) = calls w @ xs)"

text \<open>
  Started no later than \<open>c\<close>, the step \<open>f\<close> either does exactly what \<open>f0\<close> does and ends no
  later than \<open>c\<close>, or it returns the context's error at the instant \<open>c\<close>, having made some
  first part of the calls that \<open>f0\<close> makes.
\<close>

definition cancelSim :: "int \<Rightarrow> step \<Rightarrow> step \<Rightarrow> bool" where
  "cancelSim c f f0 =
     (\<forall>w. now w \<le> c \<longrightarrow>
        (f w = f0 w \<and> now (snd (f0 w)) \<le> c) \<or>
        (\<exists>w' cs rest. f w = (Some ContextErr, w') \<and> now w' = c \<and> calls w' = calls w @ cs \<and>
            calls (snd (f0 w)) = calls w @ cs @ rest))"

lemma growsCallsI: "(\<And>w. \<exists>xs. calls (snd (f w)) = calls w @ xs) \<Longrightarrow> growsCalls f"
  by (simp add: growsCalls_def)

lemma growsCallsD: "growsCalls f \<Longrightarrow> \<exists>xs. calls (snd (f w)) = calls w @ xs"
  by (simp add: growsCalls_def)

lemma growsCalls_skipStep: "growsCalls skipStep"
  by (simp add: growsCalls_def skipStep_def)

lemma growsCalls_checkCtx: "growsCalls (checkCtx env)"
  by (simp add: growsCalls_def checkCtx_def)

lemma growsCalls_waitFor: "growsCalls (waitFor env d)"
  by (simp add: growsCalls_def waitFor_calls)

lemma growsCalls_andThen:
  assumes "growsCalls f" and "growsCalls g"
  shows "growsCalls (andThen f g)"
proof (rule growsCallsI)
  fix w
  obtain r w1 where fw: "f w = (r, w1)" by (cases "f w")
  from growsCallsD [OF assms(1), of w] fw obtain xs where xs: "calls w1 = calls w @ xs" by auto
  show "\<exists>xs. calls (snd (andThen f g w)) = calls w @ xs"
  proof (cases r)
    case (Some err)
    then show ?thesis using fw xs by (simp add: andThen_def)
  next
    case None
    from growsCallsD [OF assms(2), of w1] obtain ys where "calls (snd (g w1)) = calls w1 @ ys" by auto
    then show ?thesis using fw xs None by (simp add: andThen_def)
  qed
qed

lemma cancelSim_same:
  assumes "\<And>w. now (snd (g w)) = now w"
  shows "cancelSim c g g"
  using assms by (simp add: cancelSim_def)

lemma cancelSim_skipStep: "cancelSim c skipStep skipStep"
  by (rule cancelSim_same) (simp add: skipStep_def)

lemma cancelSim_checkCtx:
  assumes "ctxDoneAt env = Some c"
  shows "cancelSim c (checkCtx env) (checkCtx (env\<lparr>ctxDoneAt := None\<rparr>))"
  unfolding cancelSim_def
proof (intro allI impI)
  fix w :: World
  assume le: "now w \<le> c"
  show "(checkCtx env w = checkCtx (env\<lparr>ctxDoneAt := None\<rparr>) w \<and> now (snd (checkCtx (env\<lparr>ctxDoneAt := None\<rparr>) w)) \<le> c) \<or>
        (\<exists>w' cs rest. checkCtx env w = (Some ContextErr, w') \<and> now w' = c \<and> calls w' = calls w @ cs \<and>
            calls (snd (checkCtx (env\<lparr>ctxDoneAt := None\<rparr>) w)) = calls w @ cs @ rest)"
  proof (cases "c \<le> now w")
    case True
    then have "checkCtx env w = (Some ContextErr, w)" "now w = c"
      using assms le by (simp_all add: checkCtx_def ctxDone_def)
    then show ?thesis by (simp add: checkCtx_def ctxDone_def)
  next
    case False
    then show ?thesis using assms le by (simp add: checkCtx_def ctxDone_def)
  qed
qed

text \<open>
  For the waits, the comparison needs that a timer of positive duration has not fired
  when the \<open>select\<close> that starts it is evaluated: begun with the context done, such a
  wait returns the context's error.
\<close>

lemma cancelSim_waitFor:
  assumes c: "ctxDoneAt env = Some c"
    and pending: "\<forall>v d. c \<le> now v \<and> 0 < d \<longrightarrow> \<not> selectPicksTimer env v d"
  shows "cancelSim c (waitFor env d) (waitFor (env\<lparr>ctxDoneAt := None\<rparr>) d)"
  unfolding cancelSim_def
proof (intro allI impI)
  fix w :: World
  assume le: "now w \<le> c"
  let ?timerAt = "now w + max d 0"
  let ?run = "waitFor env d w"
  let ?free = "waitFor (env\<lparr>ctxDoneAt := None\<rparr>) d w"
  have w0: "?free = (None, w\<lparr>now := ?timerAt\<rparr>)"
    by (simp add: waitFor_def Let_def)
  let ?goal = "(?run = ?free \<and> now (snd ?free) \<le> c) \<or>
        (\<exists>w' cs rest. ?run = (Some ContextErr, w') \<and> now w' = c \<and> calls w' = calls w @ cs \<and>
            calls (snd ?free) = calls w @ cs @ rest)"
  consider (timer) "?run = (None, w\<lparr>now := ?timerAt\<rparr>)" "?timerAt \<le> c"
    | (ctx) "?run = (Some ContextErr, w\<lparr>now := c\<rparr>)"
  proof (cases "c \<le> now w")
    case True
    then have eq: "now w = c" using le by simp
    show ?thesis
    proof (cases "selectPicksTimer env w d")
      case picks: True
      then have "\<not> 0 < d" using pending True by blast
      then have "?timerAt \<le> c" using eq by simp
      moreover have "?run = (None, w\<lparr>now := ?timerAt\<rparr>)"
        using c True picks by (simp add: waitFor_def Let_def)
      ultimately show ?thesis by (rule that(1) [rotated])
    next
      case False
      then have "?run = (Some ContextErr, w)" using c True by (simp add: waitFor_def Let_def)
      then have "?run = (Some ContextErr, w\<lparr>now := c\<rparr>)" using eq [symmetric] by simp
      then show ?thesis by (rule that(2))
    qed
  next
    case notyet: False
    show ?thesis
    proof (cases "c < ?timerAt \<or> (c = ?timerAt \<and> \<not> selectPicksTimer env w d)")
      case True
      then have "?run = (Some ContextErr, w\<lparr>now := c\<rparr>)"
        using c notyet by (simp add: waitFor_def Let_def)
      then show ?thesis by (rule that(2))
    next
      case False
      then have "?run = (None, w\<lparr>now := ?timerAt\<rparr>)"
        using c notyet by (simp add: waitFor_def Let_def)
      moreover from False have "?timerAt \<le> c" by auto
      ultimately show ?thesis by (rule that(1))
    qed
  qed
  then show ?goal
  proof cases
    case timer
    then show ?thesis using w0 by simp
  next
    case ctx
    then show ?thesis using w0 by simp
  qed
qed

lemma cancelSim_andThen:
  assumes f: "cancelSim c f f0" and g: "cancelSim c g g0"
    and gf: "growsCalls f0" and gg: "growsCalls g0"
  shows "cancelSim c (andThen f g) (andThen f0 g0)"
  unfolding cancelSim_def
proof (intro allI impI)
  fix w :: World
  assume le: "now w \<le> c"
  let ?goal = "(andThen f g w = andThen f0 g0 w \<and> now (snd (andThen f0 g0 w)) \<le> c) \<or>
        (\<exists>w' cs rest. andThen f g w = (Some ContextErr, w') \<and> now w' = c \<and> calls w' = calls w @ cs \<and>
            calls (snd (andThen f0 g0 w)) = calls w @ cs @ rest)"
  obtain r0 w1 where f0w: "f0 w = (r0, w1)" by (cases "f0 w")
  from growsCallsD [OF gf, of w] f0w obtain xs where xs: "calls w1 = calls w @ xs" by auto
  from f le have
    "(f w = f0 w \<and> now (snd (f0 w)) \<le> c) \<or>
     (\<exists>w' cs rest. f w = (Some ContextErr, w') \<and> now w' = c \<and> calls w' = calls w @ cs \<and>
         calls (snd (f0 w)) = calls w @ cs @ rest)"
    by (simp add: cancelSim_def)
  then show ?goal
  proof (elim disjE conjE exE)
    assume same: "f w = f0 w" and t: "now (snd (f0 w)) \<le> c"
    show ?goal
    proof (cases r0)
      case (Some err)
      then show ?thesis using same t f0w by (simp add: andThen_def)
    next
      case None
      have le1: "now w1 \<le> c" using t f0w by simp
      have a: "andThen f g w = g w1" "andThen f0 g0 w = g0 w1"
        using same f0w None by (simp_all add: andThen_def)
      from g le1 have
        "(g w1 = g0 w1 \<and> now (snd (g0 w1)) \<le> c) \<or>
         (\<exists>w' cs rest. g w1 = (Some ContextErr, w') \<and> now w' = c \<and> calls w' = calls w1 @ cs \<and>
             calls (snd (g0 w1)) = calls w1 @ cs @ rest)"
        by (simp add: cancelSim_def)
      then show ?thesis
      proof (elim disjE conjE exE)
        assume "g w1 = g0 w1" "now (snd (g0 w1)) \<le> c"
        then show ?thesis using a by simp
      next
        fix w' cs rest
        assume "g w1 = (Some ContextErr, w')" "now w' = c" "calls w' = calls w1 @ cs"
          "calls (snd (g0 w1)) = calls w1 @ cs @ rest"
        then have "andThen f g w = (Some ContextErr, w') \<and> now w' = c \<and> calls w' = calls w @ (xs @ cs) \<and>
            calls (snd (andThen f0 g0 w)) = calls w @ (xs @ cs) @ rest"
          using a xs by simp
        then show ?thesis by blast
      qed
    qed
  next
    fix w' cs rest
    assume c1: "f w = (Some ContextErr, w')" "now w' = c" "calls w' = calls w @ cs"
      and c2: "calls (snd (f0 w)) = calls w @ cs @ rest"
    have a: "andThen f g w = (Some ContextErr, w')" using c1 by (simp add: andThen_def)
    have "\<exists>rest'. calls (snd (andThen f0 g0 w)) = calls w @ cs @ rest'"
    proof (cases r0)
      case (Some err)
      then show ?thesis using f0w c2 by (simp add: andThen_def)
    next
      case None
      from growsCallsD [OF gg, of w1] obtain ys where "calls (snd (g0 w1)) = calls w1 @ ys" by auto
      then show ?thesis using f0w c2 None by (simp add: andThen_def)
    qed
    then show ?goal using a c1 by blast
  qed
qed

text \<open>The executors as sequences of steps.\<close>

definition typeChar :: "Env \<Rightarrow> string \<Rightarrow> step" where
  "typeChar env ch w =
     (case sendKeypress env ch w of
        (Some err, w1) \<Rightarrow> (Some (SendCharacterErr ch err), stopInterval w1)
      | (None, w1) \<Rightarrow> (None, w1))"

definition keyPress :: "Env \<Rightarrow> Action \<Rightarrow> int \<Rightarrow> step" where
  "keyPress env a i w =
     (case sendKeypress env (Key a) w of
        (Some err, w1) \<Rightarrow> (Some (SendKeyErr (Key a) (i + 1) err), stopInterval w1)
      | (None, w1) \<Rightarrow> (None, w1))"

definition waitIfPositive :: "Env \<Rightarrow> int \<Rightarrow> step" where
  "waitIfPositive env d = (if d > 0 then waitFor env d else skipStep)"

lemma executeTypeLoop_Nil: "executeTypeLoop env a [] = skipStep"
  by (rule ext) (simp add: skipStep_def)

lemma executeTypeLoop_Cons:
  "executeTypeLoop env a (ch # rest) =
     andThen (checkCtx env) (andThen (typeChar env ch) (andThen (waitIfPositive env (Speed a)) (executeTypeLoop env a rest)))"
  by (rule ext)
     (auto simp: andThen_def checkCtx_def typeChar_def waitIfPositive_def skipStep_def
           split: prod.splits option.splits)

lemma executeTypeAction_steps:
  "executeTypeAction env a index =
     andThen (executeTypeLoop env a (stringRunes (Text a))) (waitIfPositive env (Delay a))"
  by (rule ext)
     (auto simp: executeTypeAction_def andThen_def waitIfPositive_def skipStep_def
           split: prod.splits option.splits)

lemma executeKeyLoop_stop: "\<not> i < r \<Longrightarrow> executeKeyLoop env a i r = skipStep"
  by (rule ext) (subst executeKeyLoop.simps, simp add: skipStep_def)

lemma executeKeyLoop_step:
  "i < r \<Longrightarrow> executeKeyLoop env a i r =
     andThen (checkCtx env) (andThen (keyPress env a i) (executeKeyLoop env a (i + 1) r))"
  by (rule ext, subst executeKeyLoop.simps)
     (auto simp: andThen_def checkCtx_def keyPress_def split: prod.splits option.splits)

lemma executeKeyAction_steps:
  "executeKeyAction env a index =
     andThen (executeKeyLoop env a 0 (if Repeat a \<le> 0 then 1 else Repeat a)) (waitIfPositive env (Delay a))"
  by (rule ext)
     (auto simp: executeKeyAction_def andThen_def waitIfPositive_def skipStep_def Let_def
           split: prod.splits option.splits)

text \<open>Sending a key reads neither the clock nor the context.\<close>

lemma rendererRun_ctx [simp]: "rendererRun (env\<lparr>ctxDoneAt := x\<rparr>) = rendererRun env"
  by (intro ext) (simp add: rendererRun_def)

lemma sendCtrlKeypress_ctx [simp]:
  "sendCtrlKeypress (env\<lparr>ctxDoneAt := x\<rparr>) = sendCtrlKeypress env"
  by (intro ext) (simp add: sendCtrlKeypress_def Let_def)

lemma sendKeypress_ctx [simp]: "sendKeypress (env\<lparr>ctxDoneAt := x\<rparr>) = sendKeypress env"
  by (intro ext) (simp add: sendKeypress_def isCtrlKey_def split: sum.splits)

lemma typeChar_ctx [simp]: "typeChar (env\<lparr>ctxDoneAt := x\<rparr>) = typeChar env"
  by (intro ext) (simp add: typeChar_def)

lemma keyPress_ctx [simp]: "keyPress (env\<lparr>ctxDoneAt := x\<rparr>) = keyPress env"
  by (intro ext) (simp add: keyPress_def)

lemma executeCtrlAction_ctx [simp]: "executeCtrlAction (env\<lparr>ctxDoneAt := x\<rparr>) = executeCtrlAction env"
  by (intro ext) (simp add: executeCtrlAction_def)

lemma sendCtrlKeypress_world:
  "now (snd (sendCtrlKeypress env key w)) = now w \<and> (\<exists>xs. calls (snd (sendCtrlKeypress env key w)) = calls w @ xs)"
  by (simp add: sendCtrlKeypress_def rendererRun_def Let_def)

lemma sendKeypress_world:
  "now (snd (sendKeypress env key w)) = now w \<and> (\<exists>xs. calls (snd (sendKeypress env key w)) = calls w @ xs)"
  by (simp add: sendKeypress_def sendCtrlKeypress_world rendererRun_def split: sum.splits)

lemma typeChar_world:
  "now (snd (typeChar env ch w)) = now w \<and> (\<exists>xs. calls (snd (typeChar env ch w)) = calls w @ xs)"
  using sendKeypress_world [of env ch w]
  by (auto simp: typeChar_def stopInterval_def split: prod.splits option.splits)

lemma keyPress_world:
  "now (snd (keyPress env a i w)) = now w \<and> (\<exists>xs. calls (snd (keyPress env a i w)) = calls w @ xs)"
  using sendKeypress_world [of env "Key a" w]
  by (auto simp: keyPress_def stopInterval_def split: prod.splits option.splits)

lemma executeCtrlAction_world:
  "now (snd (executeCtrlAction env a index w)) = now w \<and>
   (\<exists>xs. calls (snd (executeCtrlAction env a index w)) = calls w @ xs)"
  using sendCtrlKeypress_world [of env "''ctrl+'' @ Key a" w]
  by (auto simp: executeCtrlAction_def stopInterval_def split: prod.splits option.splits)

lemma growsCalls_typeChar: "growsCalls (typeChar env ch)"
  by (rule growsCallsI) (simp add: typeChar_world)

lemma growsCalls_keyPress: "growsCalls (keyPress env a i)"
  by (rule growsCallsI) (simp add: keyPress_world)

lemma growsCalls_waitIfPositive: "growsCalls (waitIfPositive env d)"
  by (simp add: waitIfPositive_def growsCalls_waitFor growsCalls_skipStep)

lemma cancelSim_waitIfPositive:
  assumes c: "ctxDoneAt env = Some c"
    and pending: "\<forall>v d. c \<le> now v \<and> 0 < d \<longrightarrow> \<not> selectPicksTimer env v d"
  shows "cancelSim c (waitIfPositive env d) (waitIfPositive (env\<lparr>ctxDoneAt := None\<rparr>) d)"
  by (simp add: waitIfPositive_def cancelSim_waitFor [OF c pending] cancelSim_skipStep)

lemma growsCalls_executeTypeLoop: "growsCalls (executeTypeLoop env a rs)"
proof (induction rs)
  case Nil
  show ?case by (simp add: executeTypeLoop_Nil growsCalls_skipStep)
next
  case (Cons ch rs)
  show ?case
    unfolding executeTypeLoop_Cons
    by (intro growsCalls_andThen growsCalls_checkCtx growsCalls_typeChar growsCalls_waitIfPositive Cons)
qed

lemma cancelSim_executeTypeLoop:
  assumes c: "ctxDoneAt env = Some c"
    and pending: "\<forall>v d. c \<le> now v \<and> 0 < d \<longrightarrow> \<not> selectPicksTimer env v d"
  shows "cancelSim c (executeTypeLoop env a rs) (executeTypeLoop (env\<lparr>ctxDoneAt := None\<rparr>) a rs)"
proof (induction rs)
  case Nil
  show ?case by (simp add: executeTypeLoop_Nil cancelSim_skipStep)
next
  case (Cons ch rs)
  have tc: "cancelSim c (typeChar env ch) (typeChar env ch)"
    by (rule cancelSim_same) (simp add: typeChar_world)
  show ?case
    unfolding executeTypeLoop_Cons typeChar_ctx
    by (intro cancelSim_andThen cancelSim_checkCtx [OF c] tc cancelSim_waitIfPositive [OF c pending] Cons
          growsCalls_andThen growsCalls_checkCtx growsCalls_typeChar growsCalls_waitIfPositive
          growsCalls_executeTypeLoop)
qed

lemma growsCalls_executeKeyLoop: "growsCalls (executeKeyLoop env a i r)"
proof (induction "nat (r - i)" arbitrary: i)
  case 0
  then have "\<not> i < r" by simp
  then show ?case by (simp add: executeKeyLoop_stop growsCalls_skipStep)
next
  case (Suc n)
  then have lt: "i < r" and n: "n = nat (r - (i + 1))" by simp_all
  show ?case
    unfolding executeKeyLoop_step [OF lt]
    by (intro growsCalls_andThen growsCalls_checkCtx growsCalls_keyPress Suc.hyps(1) [OF n])
qed

lemma cancelSim_executeKeyLoop:
  assumes c: "ctxDoneAt env = Some c"
  shows "cancelSim c (executeKeyLoop env a i r) (executeKeyLoop (env\<lparr>ctxDoneAt := None\<rparr>) a i r)"
proof (induction "nat (r - i)" arbitrary: i)
  case 0
  then have "\<not> i < r" by simp
  then show ?case by (simp add: executeKeyLoop_stop cancelSim_skipStep)
next
  case (Suc n)
  then have lt: "i < r" and n: "n = nat (r - (i + 1))" by simp_all
  have kp: "cancelSim c (keyPress env a i) (keyPress env a i)"
    by (rule cancelSim_same) (simp add: keyPress_world)
  show ?case
    unfolding executeKeyLoop_step [OF lt] keyPress_ctx
    by (intro cancelSim_andThen cancelSim_checkCtx [OF c] kp Suc.hyps(1) [OF n]
          growsCalls_andThen growsCalls_checkCtx growsCalls_keyPress growsCalls_executeKeyLoop)
qed

lemma growsCalls_executeSingleAction: "growsCalls (executeSingleAction env a index)"
proof (cases "Kind a")
  case ActionType
  then have "executeSingleAction env a index = executeTypeAction env a index"
    by (intro ext) (simp add: executeSingleAction_def)
  then show ?thesis
    by (simp add: executeTypeAction_steps growsCalls_andThen growsCalls_executeTypeLoop growsCalls_waitIfPositive)
next
  case ActionSleep
  then have "executeSingleAction env a index = waitFor env (Duration a)"
    by (intro ext) (simp add: executeSingleAction_def executeSleepAction_def)
  then show ?thesis by (simp add: growsCalls_waitFor)
next
  case ActionKey
  then have "executeSingleAction env a index = executeKeyAction env a index"
    by (intro ext) (simp add: executeSingleAction_def)
  then show ?thesis
    by (simp only: executeKeyAction_steps growsCalls_andThen growsCalls_executeKeyLoop growsCalls_waitIfPositive)
next
  case ActionCtrl
  then have "executeSingleAction env a index = executeCtrlAction env a index"
    by (intro ext) (simp add: executeSingleAction_def)
  then show ?thesis by (simp add: growsCalls_def executeCtrlAction_world)
qed

lemma cancelSim_executeSingleAction:
  assumes c: "ctxDoneAt env = Some c"
    and pending: "\<forall>v d. c \<le> now v \<and> 0 < d \<longrightarrow> \<not> selectPicksTimer env v d"
  shows "cancelSim c (executeSingleAction env a index) (executeSingleAction (env\<lparr>ctxDoneAt := None\<rparr>) a index)"
proof (cases "Kind a")
  case ActionType
  then have e: "\<And>e. executeSingleAction e a index = executeTypeAction e a index"
    by (intro ext) (simp add: executeSingleAction_def)
  show ?thesis
    unfolding e executeTypeAction_steps
    by (intro cancelSim_andThen cancelSim_executeTypeLoop [OF c pending] cancelSim_waitIfPositive [OF c pending]
          growsCalls_executeTypeLoop growsCalls_waitIfPositive)
next
  case ActionSleep
  then have e: "\<And>e. executeSingleAction e a index = waitFor e (Duration a)"
    by (intro ext) (simp add: executeSingleAction_def executeSleepAction_def)
  show ?thesis unfolding e by (rule cancelSim_waitFor [OF c pending])
next
  case ActionKey
  then have e: "\<And>e. executeSingleAction e a index = executeKeyAction e a index"
    by (intro ext) (simp add: executeSingleAction_def)
  show ?thesis
    unfolding e executeKeyAction_steps
    by (intro cancelSim_andThen cancelSim_executeKeyLoop [OF c] cancelSim_waitIfPositive [OF c pending]
          growsCalls_executeKeyLoop growsCalls_waitIfPositive)
next
  case ActionCtrl
  then have e: "\<And>e. executeSingleAction e a index = executeCtrlAction e a index"
    by (intro ext) (simp add: executeSingleAction_def)
  show ?thesis
    unfolding e executeCtrlAction_ctx
    by (rule cancelSim_same) (simp add: executeCtrlAction_world)
qed

lemma cancelled_in_action:
  assumes "ctxDoneAt env = Some c"
    and "\<forall>v d. c \<le> now v \<and> 0 < d \<longrightarrow> \<not> selectPicksTimer env v d"
    and "now w \<le> c"
    and "c < now (snd (executeSingleAction (env\<lparr>ctxDoneAt := None\<rparr>) a index w))"
  shows "\<exists>w' cs rest. executeSingleAction env a index w = (Some ContextErr, w') \<and> now w' = c \<and>
           calls w' = calls w @ cs \<and>
           calls (snd (executeSingleAction (env\<lparr>ctxDoneAt := None\<rparr>) a index w)) = calls w @ cs @ rest"
  using cancelSim_executeSingleAction [OF assms(1,2), of a index] assms(3,4)
  unfolding cancelSim_def by fastforce

section \<open>The claims\<close>




text \<open>
  C2. Every key whose lower-cased name is the lower-cased name of a \<open>KEYNAME\<close> is accepted
  by the parser's \<open>isValidKey\<close> and is given a key code by \<open>KeyToKeyCode\<close>: on these names
  the two tables agree (every name of \<open>validKeys\<close> has an entry in \<open>specialKeyCodes\<close>).
  Hence the key of every Key action of a parsed script has a key code, and the engine's
  \<open>sendKeypress\<close> passes the key event with that code to the renderer.
\<close>

theorem C2_key_tables_agree:
  "(\<forall>key. ToLower lib key \<in> set (map (ToLower lib) KEYNAME) \<longrightarrow>
        isValidKey lib key \<and> dispatchable lib key \<and> isValidKey lib key = dispatchable lib key)
   \<and> (\<forall>k. validKeysAt k \<longrightarrow> (\<exists>code. map_of specialKeyCodes k = Some code))
   \<and> (\<forall>script actions err a. Parse lib script = (Some actions, err) \<and> a \<in> set actions \<and> Kind a = ActionKey \<longrightarrow>
        isValidKey lib (Key a) \<and>
        (\<exists>code. KeyToKeyCode lib (Key a) = Inr code \<and>
           (\<forall>env w. goLib env = lib \<longrightarrow> sendKeypress env (Key a) w = rendererRun env (KeyEvent code) w)))"
proof (intro conjI allI impI)
  fix key
  assume "ToLower lib key \<in> set (map (ToLower lib) KEYNAME)"
  then have v: "validKeysAt (ToLower lib key)" by (simp only: KEYNAME_lower validKeysAt_names)
  show "isValidKey lib key" using v by (rule validKeysAt_isValidKey)
  show "dispatchable lib key" using v by (rule validKeysAt_dispatchable)
  show "isValidKey lib key = dispatchable lib key"
    using validKeysAt_isValidKey [OF v] validKeysAt_dispatchable [OF v] by simp
next
  fix k
  assume "validKeysAt k"
  then show "\<exists>code. map_of specialKeyCodes k = Some code" by (rule validKeysAt_code)
next
  fix script actions err a
  assume h: "Parse lib script = (Some actions, err) \<and> a \<in> set actions \<and> Kind a = ActionKey"
  then have l: "ParseLoop lib (newParser (newLexer script)) [] = (Some actions, err)"
    by (simp add: Parse_def Let_def)
  from h have m: "a \<in> set actions" and k: "Kind a = ActionKey" by simp_all
  from ParseLoop_actions [OF l newParser_parserInv m]
  obtain p0 p1 where p: "parseAction lib p0 = Inr (a, p1)" by auto
  have v: "validKeysAt (ToLower lib (Key a))" using p k by (rule parseAction_key_valid)
  show "isValidKey lib (Key a)" using v by (rule validKeysAt_isValidKey)
  from validKeysAt_dispatchable [OF v] obtain code where c: "KeyToKeyCode lib (Key a) = Inr code"
    by (auto simp: dispatchable_def split: sum.splits)
  have "\<forall>env w. goLib env = lib \<longrightarrow> sendKeypress env (Key a) w = rendererRun env (KeyEvent code) w"
  proof (intro allI impI)
    fix env :: Env and w
    assume g: "goLib env = lib"
    from sendKeypress_named_key [of env "Key a"] v g c
    show "sendKeypress env (Key a) w = rendererRun env (KeyEvent code) w" by auto
  qed
  then show "\<exists>code. KeyToKeyCode lib (Key a) = Inr code \<and>
         (\<forall>env w. goLib env = lib \<longrightarrow> sendKeypress env (Key a) w = rendererRun env (KeyEvent code) w)"
    using c by blast
qed

theorem C2_witness:
  "ToLower asciiLib ''PAGEDOWN'' \<in> set (map (ToLower asciiLib) KEYNAME)
   \<and> isValidKey asciiLib ''PAGEDOWN'' \<and> dispatchable asciiLib ''PAGEDOWN''
   \<and> KeyToKeyCode asciiLib ''PAGEDOWN'' = Inr ''PageDown''
   \<and> Parse asciiLib ''Space 2'' = (Some [zeroAction\<lparr>Kind := ActionKey, Key := ''Space'', Repeat := 2\<rparr>], None)
   \<and> isValidKey asciiLib ''Space''
   \<and> KeyToKeyCode asciiLib ''Space'' = Inr ''Space''
   \<and> list_all (\<lambda>key. isValidKey asciiLib key \<and> dispatchable asciiLib key) KEYNAME"
proof -
  let ?a = "zeroAction\<lparr>Kind := ActionKey, Key := ''Space'', Repeat := 2\<rparr>"
  have m: "ToLower asciiLib ''PAGEDOWN'' \<in> set (map (ToLower asciiLib) KEYNAME)" by code_simp
  have c1: "KeyToKeyCode asciiLib ''PAGEDOWN'' = Inr ''PageDown''" by code_simp
  have h: "Parse asciiLib ''Space 2'' = (Some [?a], None)" by code_simp
  have h': "Parse asciiLib ''Space 2'' = (Some [?a], None) \<and> ?a \<in> set [?a] \<and> Kind ?a = ActionKey"
    using h by simp
  have c2: "KeyToKeyCode asciiLib ''Space'' = Inr ''Space''" by code_simp
  have all: "list_all (\<lambda>key. isValidKey asciiLib key \<and> dispatchable asciiLib key) KEYNAME" by code_simp
  have k: "Key ?a = ''Space''" by simp
  note t = C2_key_tables_agree [of asciiLib]
  have 1: "isValidKey asciiLib ''PAGEDOWN'' \<and> dispatchable asciiLib ''PAGEDOWN''"
    using t m by blast
  have 2: "isValidKey asciiLib (Key ?a)"
    using t h' by blast
  show ?thesis using m 1 c1 h 2 c2 all unfolding k by (intro conjI) simp_all
qed

text \<open>
  C3. The claim: after a successful parse, the key of every Ctrl action is exactly one
  lowercase letter, never empty and never longer. \<open>parseAction\<close> hands every
  identifier that starts with \<open>ctrl+\<close> to \<open>parseCtrlAction\<close>, which stores whatever
  follows the prefix without looking at it: \<open>Ctrl+\<close> parses to a Ctrl action with the
  empty key and \<open>Ctrl+abc\<close> to one with the key \<open>abc\<close>. The engine then refuses such
  an action (its \<open>sendCtrlKeypress\<close> wants exactly one character after the prefix).
\<close>

theorem C3_ctrl_key_not_checked:
  "Parse asciiLib ''Ctrl+'' = (Some [zeroAction\<lparr>Kind := ActionCtrl, Key := []\<rparr>], None)
   \<and> Parse asciiLib ''Ctrl+abc'' = (Some [zeroAction\<lparr>Kind := ActionCtrl, Key := ''abc''\<rparr>], None)
   \<and> isValidKey asciiLib ''Ctrl+'' = False
   \<and> executeActions (plainEnv [zeroAction\<lparr>Kind := ActionCtrl, Key := []\<rparr>] None) startWorld
       = (Some (SendCtrlErr [] (InvalidCtrlKeyFormat ''ctrl+'')), startWorld\<lparr>intervalRunning := False\<rparr>)"
  by code_simp










text \<open>
  C7. For every input made only of spaces, tabs, newlines and carriage returns (the
  empty input among them), \<open>Parse\<close> returns the empty action sequence and no error.
\<close>

theorem C7_whitespace_only_parses_to_nothing:
  assumes "\<forall>c \<in> set script. isWhitespace c"
  shows "Parse lib script = (Some [], None)"
proof -
  let ?start = "newLexer script"
  let ?stop = "skipWhitespace ?start"
  have inp: "lxInput ?start = script" by (simp add: newLexer_def readChar_def)
  have ws: "\<forall>i. lxPosition ?start \<le> i \<and> i < length (lxInput ?start) \<longrightarrow> isWhitespace (lxInput ?start ! i)"
    using assms inp by simp
  have e: "lxCh ?stop = CHR 0x00" using newLexer_lexWF ws by (rule skipWhitespace_to_end)
  have t1: "nextToken ?start = (mkToken tokenEOF [] (lxPosition ?stop), ?stop)" using e by (rule nextToken_at_end)
  have t2: "nextToken ?stop = (mkToken tokenEOF [] (lxPosition ?stop), ?stop)"
    using nextToken_at_end [of ?stop] e by (simp add: skipWhitespace_idle)
  have "tkKind (curToken (newParser ?start)) = tokenEOF"
    by (simp add: newParser_def pNextToken_def t1 t2 mkToken_def)
  then show ?thesis
    by (simp add: Parse_def Let_def) (subst ParseLoop.simps, simp)
qed

theorem C7_witness:
  "list_all isWhitespace [CHR '' '', CHR '' '', CHR '' '', CHR 0x09, CHR 0x0A, CHR '' '', CHR '' '']
   \<and> Parse asciiLib [CHR '' '', CHR '' '', CHR '' '', CHR 0x09, CHR 0x0A, CHR '' '', CHR '' ''] = (Some [], None)
   \<and> Parse asciiLib [] = (Some [], None)"
proof -
  have h: "\<forall>c \<in> set [CHR '' '', CHR '' '', CHR '' '', CHR 0x09, CHR 0x0A, CHR '' '', CHR '' '']. isWhitespace c"
    by (simp add: isWhitespace_def)
  have h0: "\<forall>c \<in> set ([] :: string). isWhitespace c" by simp
  show ?thesis
    using h C7_whitespace_only_parses_to_nothing [OF h, of asciiLib]
      C7_whitespace_only_parses_to_nothing [OF h0, of asciiLib] by (simp add: list_all_iff)
qed

text \<open>
  C8. \<open>Parse\<close> is all-or-nothing: it returns either an action sequence and no error, or
  an error and no action sequence (\<open>None\<close> is Go's \<open>nil\<close>); and the first action that
  fails to parse ends the loop with its error, whatever was parsed before.
\<close>

theorem C8_parse_all_or_nothing:
  "((\<exists>actions. Parse lib script = (Some actions, None)) \<or> (\<exists>err. Parse lib script = (None, Some err)))
   \<and> (\<forall>p acts err. tkKind (curToken p) \<noteq> tokenEOF \<and> parseAction lib p = Inl err
          \<longrightarrow> ParseLoop lib p acts = (None, Some err))"
proof
  show "(\<exists>actions. Parse lib script = (Some actions, None)) \<or> (\<exists>err. Parse lib script = (None, Some err))"
    unfolding Parse_def Let_def by (rule ParseLoop_all_or_nothing)
next
  show "\<forall>p acts err. tkKind (curToken p) \<noteq> tokenEOF \<and> parseAction lib p = Inl err
          \<longrightarrow> ParseLoop lib p acts = (None, Some err)"
    by (intro allI impI, subst ParseLoop.simps) simp
qed

theorem C8_witness:
  "tkKind (curToken (newParser (newLexer ''Enter Foo''))) \<noteq> tokenEOF
   \<and> Parse asciiLib ''Enter Foo'' = (None, Some \<lparr>Position = 6, Message = unknownKeyMessage asciiLib ''Foo''\<rparr>)
   \<and> Parse asciiLib ''Enter'' = (Some [zeroAction\<lparr>Kind := ActionKey, Key := ''Enter'', Repeat := 1\<rparr>], None)"
proof -
  let ?p = "newParser (newLexer ''Foo'')"
  have k: "tkKind (curToken ?p) \<noteq> tokenEOF" by code_simp
  have f: "parseAction asciiLib ?p = Inl \<lparr>Position = 0, Message = unknownKeyMessage asciiLib ''Foo''\<rparr>"
    by code_simp
  have "ParseLoop asciiLib ?p [] = (None, Some \<lparr>Position = 0, Message = unknownKeyMessage asciiLib ''Foo''\<rparr>)"
    using C8_parse_all_or_nothing [of asciiLib "[]"] k f by blast
  moreover have "tkKind (curToken (newParser (newLexer ''Enter Foo''))) \<noteq> tokenEOF" by code_simp
  moreover have "Parse asciiLib ''Enter Foo'' = (None, Some \<lparr>Position = 6, Message = unknownKeyMessage asciiLib ''Foo''\<rparr>)"
    by code_simp
  moreover have "Parse asciiLib ''Enter'' = (Some [zeroAction\<lparr>Kind := ActionKey, Key := ''Enter'', Repeat := 1\<rparr>], None)"
    by code_simp
  ultimately show ?thesis by simp
qed

text \<open>
  C9. Let the context be cancelled at the instant \<open>c\<close>, let the actions before the action
  \<open>a\<close> run without error and end no later than \<open>c\<close>, and let \<open>c\<close> come before the instant
  at which \<open>a\<close> would end if the context were never cancelled: the cancellation falls
  in the time that \<open>a\<close> takes, which is the time of its waits (the wait of a Sleep, the
  wait after a typed character, the delay after a Type or a Key). Let a timer of
  positive duration not have fired when the \<open>select\<close> that starts it is evaluated. Then
  the engine returns the context's error at the instant \<open>c\<close>, and the key events it has
  dispatched since \<open>a\<close> began are a first part of the key events of \<open>a\<close> itself: no
  action after \<open>a\<close> dispatches anything. This holds whichever channel a \<open>select\<close> takes
  when the context's instant is the timer's.
\<close>

theorem C9_cancel_during_wait:
  assumes "Actions (config env) = pre @ a # post"
    and "executeActionsLoop env 0 pre w = (None, w1)"
    and "ctxDoneAt env = Some c"
    and "\<forall>v d. c \<le> now v \<and> 0 < d \<longrightarrow> \<not> selectPicksTimer env v d"
    and "now w1 \<le> c"
    and "c < now (snd (executeSingleAction (env\<lparr>ctxDoneAt := None\<rparr>) a (length pre) w1))"
  shows "\<exists>w2 cs rest. executeActions env w = (Some ContextErr, w2) \<and> now w2 = c \<and>
           calls w2 = calls w1 @ cs \<and>
           calls (snd (executeSingleAction (env\<lparr>ctxDoneAt := None\<rparr>) a (length pre) w1)) = calls w1 @ cs @ rest"
proof -
  from cancelled_in_action [OF assms(3,4,5,6)] obtain w2 cs rest where
    s: "executeSingleAction env a (length pre) w1 = (Some ContextErr, w2)" and
    r: "now w2 = c" "calls w2 = calls w1 @ cs"
       "calls (snd (executeSingleAction (env\<lparr>ctxDoneAt := None\<rparr>) a (length pre) w1)) = calls w1 @ cs @ rest"
    by blast
  have "executeActions env w = executeActionsLoop env 0 (pre @ a # post) w"
    using assms(1) by (simp add: executeActions_def Let_def)
  also have "\<dots> = (Some ContextErr, w2)"
    using assms(2) s by (simp add: executeActionsLoop_append)
  finally show ?thesis using r by blast
qed

theorem C9_witness:
  "executeActions (plainEnv specExample (Some 400000000)) startWorld
     = (Some ContextErr, \<lparr>now = 400000000, calls = [], intervalRunning = True\<rparr>)
   \<and> (\<exists>w2 cs rest. executeActions (plainEnv specExample (Some 400000000)) startWorld = (Some ContextErr, w2)
         \<and> now w2 = 400000000 \<and> calls w2 = calls startWorld @ cs
         \<and> calls (snd (executeSingleAction (plainEnv specExample (Some 400000000)\<lparr>ctxDoneAt := None\<rparr>)
               (zeroAction\<lparr>Kind := ActionSleep, Duration := Second\<rparr>) (length ([] :: Action list)) startWorld))
             = calls startWorld @ cs @ rest)
   \<and> executeActions (plainEnv specExample (Some 1020000000)) startWorld
     = (Some ContextErr, \<lparr>now = 1020000000, calls = [KeyEvent ''l''], intervalRunning = True\<rparr>)
   \<and> (\<exists>w2 cs rest. executeActions (plainEnv specExample (Some 1020000000)) startWorld = (Some ContextErr, w2)
         \<and> now w2 = 1020000000 \<and> calls w2 = calls (startWorld\<lparr>now := 1000000000\<rparr>) @ cs
         \<and> calls (snd (executeSingleAction (plainEnv specExample (Some 1020000000)\<lparr>ctxDoneAt := None\<rparr>)
               (zeroAction\<lparr>Kind := ActionType, Text := ''ls -la'', Speed := 50 * Millisecond\<rparr>)
               (length [zeroAction\<lparr>Kind := ActionSleep, Duration := Second\<rparr>]) (startWorld\<lparr>now := 1000000000\<rparr>)))
             = calls (startWorld\<lparr>now := 1000000000\<rparr>) @ cs @ rest)"
proof -
  let ?sleep = "zeroAction\<lparr>Kind := ActionSleep, Duration := Second\<rparr>"
  let ?type = "zeroAction\<lparr>Kind := ActionType, Text := ''ls -la'', Speed := 50 * Millisecond\<rparr>"
  let ?key = "zeroAction\<lparr>Kind := ActionKey, Key := ''Enter'', Repeat := 1\<rparr>"
  let ?last = "zeroAction\<lparr>Kind := ActionSleep, Duration := 500 * Millisecond\<rparr>"
  let ?envA = "plainEnv specExample (Some 400000000)"
  let ?envB = "plainEnv specExample (Some 1020000000)"
  let ?mid = "startWorld\<lparr>now := 1000000000\<rparr>"
  have a1: "Actions (config ?envA) = [] @ ?sleep # [?type, ?key, ?last]"
    by (simp add: plainEnv_def specExample_def)
  have a2: "executeActionsLoop ?envA 0 [] startWorld = (None, startWorld)" by simp
  have a3: "ctxDoneAt ?envA = Some 400000000" by (simp add: plainEnv_def)
  have a4: "\<forall>v d. 400000000 \<le> now v \<and> 0 < d \<longrightarrow> \<not> selectPicksTimer ?envA v d"
    by (simp add: plainEnv_def)
  have a5: "now startWorld \<le> 400000000" by (simp add: startWorld_def)
  have a6: "400000000 < now (snd (executeSingleAction (?envA\<lparr>ctxDoneAt := None\<rparr>) ?sleep (length ([] :: Action list)) startWorld))"
    by code_simp
  have ra: "executeActions ?envA startWorld = (Some ContextErr, \<lparr>now = 400000000, calls = [], intervalRunning = True\<rparr>)"
    by code_simp
  have b1: "Actions (config ?envB) = [?sleep] @ ?type # [?key, ?last]"
    by (simp add: plainEnv_def specExample_def)
  have b2: "executeActionsLoop ?envB 0 [?sleep] startWorld = (None, ?mid)" by code_simp
  have b3: "ctxDoneAt ?envB = Some 1020000000" by (simp add: plainEnv_def)
  have b4: "\<forall>v d. 1020000000 \<le> now v \<and> 0 < d \<longrightarrow> \<not> selectPicksTimer ?envB v d"
    by (simp add: plainEnv_def)
  have b5: "now ?mid \<le> 1020000000" by simp
  have b6: "1020000000 < now (snd (executeSingleAction (?envB\<lparr>ctxDoneAt := None\<rparr>) ?type (length [?sleep]) ?mid))"
    by code_simp
  have rb: "executeActions ?envB startWorld = (Some ContextErr, \<lparr>now = 1020000000, calls = [KeyEvent ''l''], intervalRunning = True\<rparr>)"
    by code_simp
  show ?thesis
    using ra rb C9_cancel_during_wait [OF a1 a2 a3 a4 a5 a6] C9_cancel_during_wait [OF b1 b2 b3 b4 b5 b6]
    by (intro conjI)
qed

text \<open>
  C10. When a Key action runs to its end without error, the key was dispatched
  \<open>max(Repeat, 1)\<close> times: once when \<open>Repeat\<close> is zero or negative.
\<close>

theorem C10_key_dispatch_count:
  assumes "executeKeyAction env a index w = (None, w')"
  shows "calls w' = calls w @ replicate (nat (max (Repeat a) 1)) (keyCall env (Key a))"
proof -
  define r where "r = (if Repeat a \<le> 0 then 1 else Repeat a)"
  have rm: "r = max (Repeat a) 1" by (simp add: r_def max_def)
  from assms obtain w1 where
    l: "executeKeyLoop env a 0 r w = (None, w1)" and c: "calls w' = calls w1"
    unfolding executeKeyAction_def r_def [symmetric] Let_def
    using waitFor_calls [of env "Delay a"]
    by (auto split: prod.splits option.splits if_splits) (metis snd_conv)
  show ?thesis using executeKeyLoop_ok [OF l] c rm by simp
qed

theorem C10_witness:
  "executeKeyAction (plainEnv [] None) (zeroAction\<lparr>Kind := ActionKey, Key := ''Enter'', Repeat := - 2\<rparr>) 0 startWorld
     = (None, startWorld\<lparr>calls := [KeyEvent ''Enter'']\<rparr>)
   \<and> calls (startWorld\<lparr>calls := [KeyEvent ''Enter'']\<rparr>)
     = calls startWorld @ replicate (nat (max (Repeat (zeroAction\<lparr>Kind := ActionKey, Key := ''Enter'', Repeat := - 2\<rparr>)) 1))
         (keyCall (plainEnv [] None) (Key (zeroAction\<lparr>Kind := ActionKey, Key := ''Enter'', Repeat := - 2\<rparr>)))"
proof -
  let ?a = "zeroAction\<lparr>Kind := ActionKey, Key := ''Enter'', Repeat := - 2\<rparr>"
  have h: "executeKeyAction (plainEnv [] None) ?a 0 startWorld = (None, startWorld\<lparr>calls := [KeyEvent ''Enter'']\<rparr>)"
    by code_simp
  show ?thesis using h C10_key_dispatch_count [OF h] by blast
qed

end
